theory Spec2Isabelle
  imports Main
begin

section \<open>Python values and exceptions\<close>

text \<open>
  The values that a parsed YAML document, a namespace and a constructor call carry.
  A document (an \<open>OrderedDict\<close>) and an \<open>argparse.Namespace\<close> are association lists in
  insertion order, with string keys (the document type of the specification).
  Floating-point scalars are left out.
\<close>

datatype pyval =
    VNone
  | VBool bool
  | VInt int
  | VStr string
  | VList "pyval list"
  | VDict "(string \<times> pyval) list"
  | VNs "(string \<times> pyval) list"

datatype exc_class =
    ValueError | TypeError | KeyError | IndexError | AttributeError
  | ConfigurationError | EmptyConfigurationError | OtherError string

text \<open>An exception object: its class and its single message argument (\<open>e.args[0]\<close>).\<close>

datatype exn = Exn (exc_type: exc_class) (exc_arg: string)

section \<open>Strings\<close>

text \<open>
  What \<open>str.lower()\<close> does to ASCII text. The method itself folds every cased letter of
  the interpreter's character set; the functions below take it as a parameter
  (\<open>str_lower\<close>), and this instance serves the concrete runs on ASCII names.
\<close>

definition ascii_lower_char :: "char \<Rightarrow> char" where
  "ascii_lower_char c =
     (let n = (of_char c :: nat) in if 65 \<le> n \<and> n \<le> 90 then char_of (n + 32) else c)"

definition ascii_lower :: "string \<Rightarrow> string" where
  "ascii_lower s = map ascii_lower_char s"

text \<open>\<open>s.split('.')\<close>: never empty, an empty string gives one empty segment.\<close>

fun split_dot :: "string \<Rightarrow> string list" where
  "split_dot [] = [[]]"
| "split_dot (c # cs) =
     (if c = CHR ''.'' then [] # split_dot cs
      else (case split_dot cs of [] \<Rightarrow> [[c]] | w # ws \<Rightarrow> (c # w) # ws))"

text \<open>\<open>'.'.join(xs)\<close>\<close>

fun join_dot :: "string list \<Rightarrow> string" where
  "join_dot [] = []"
| "join_dot [x] = x"
| "join_dot (x # y # r) = x @ ''.'' @ join_dot (y # r)"

definition digit_char :: "nat \<Rightarrow> char" where
  "digit_char d = char_of (48 + d)"

fun show_nat :: "nat \<Rightarrow> string" where
  "show_nat n = (if n < 10 then [digit_char n] else show_nat (n div 10) @ [digit_char (n mod 10)])"

declare show_nat.simps [simp del]

text \<open>\<open>'%d' % i\<close> and \<open>str(i)\<close> of an integer.\<close>

definition show_int :: "int \<Rightarrow> string" where
  "show_int i = (if i < 0 then CHR ''-'' # show_nat (nat (- i)) else show_nat (nat i))"

definition hex_digit :: "nat \<Rightarrow> char" where
  "hex_digit d = (if d < 10 then char_of (48 + d) else char_of (87 + d))"

definition repr_char :: "char \<Rightarrow> char \<Rightarrow> string" where
  "repr_char q c =
     (let n = (of_char c :: nat) in
      if c = q \<or> n = 92 then [CHR 0x5C, c]
      else if n = 10 then [CHR 0x5C, CHR ''n'']
      else if n = 13 then [CHR 0x5C, CHR ''r'']
      else if n = 9 then [CHR 0x5C, CHR ''t'']
      else if n < 32 \<or> n = 127 then [CHR 0x5C, CHR ''x'', hex_digit (n div 16), hex_digit (n mod 16)]
      else [c])"

text \<open>
  \<open>repr(s)\<close> of a string: single quotes, unless the text holds a single quote and no
  double quote; backslash, the quote and control characters escaped.
\<close>

definition repr_str :: "string \<Rightarrow> string" where
  "repr_str s =
     (let q = (if CHR 0x27 \<in> set s \<and> CHR 0x22 \<notin> set s then CHR 0x22 else CHR 0x27)
      in [q] @ concat (map (repr_char q) s) @ [q])"

fun join_comma :: "string list \<Rightarrow> string" where
  "join_comma [] = []"
| "join_comma [x] = x"
| "join_comma (x # y # r) = x @ '', '' @ join_comma (y # r)"

text \<open>\<open>str(xs)\<close> of a list of strings.\<close>

definition repr_str_list :: "string list \<Rightarrow> string" where
  "repr_str_list xs = ''['' @ join_comma (map repr_str xs) @ '']''"

text \<open>\<open>'%-25s' % s\<close>: left-justified in a field of 25.\<close>

definition ljust25 :: "string \<Rightarrow> string" where
  "ljust25 s = s @ replicate (25 - length s) CHR '' ''"

text \<open>\<open>str(e)\<close>: the argument, but its \<open>repr\<close> for a \<open>KeyError\<close>.\<close>

definition exn_str :: "exn \<Rightarrow> string" where
  "exn_str e = (if exc_type e = KeyError then repr_str (exc_arg e) else exc_arg e)"

section \<open>Ordered dictionaries\<close>

text \<open>
  An \<open>OrderedDict\<close> with string keys: an association list in insertion order. Assigning to
  an existing key keeps its position; a new key goes to the end.
\<close>

definition od_mem :: "string \<Rightarrow> (string \<times> 'v) list \<Rightarrow> bool" where
  "od_mem k d = (k \<in> set (map fst d))"

definition od_get :: "string \<Rightarrow> (string \<times> 'v) list \<Rightarrow> 'v option" where
  "od_get k d = map_of d k"

fun od_set :: "string \<Rightarrow> 'v \<Rightarrow> (string \<times> 'v) list \<Rightarrow> (string \<times> 'v) list" where
  "od_set k v [] = [(k, v)]"
| "od_set k v ((k', v') # r) = (if k' = k then (k, v) # r else (k', v') # od_set k v r)"

definition od_del :: "string \<Rightarrow> (string \<times> 'v) list \<Rightarrow> (string \<times> 'v) list" where
  "od_del k d = filter (\<lambda>kv. fst kv \<noteq> k) d"

section \<open>Argument records\<close>

type_synonym caster = "pyval \<Rightarrow> exn + pyval"

text \<open>
  \<open>arg.type\<close>: \<open>None\<close> or one callable (\<open>TOne\<close>), or a tuple of them (\<open>TTuple\<close>); a tuple
  member may itself be \<open>None\<close>.
\<close>

datatype type_spec = TOne "caster option" | TTuple "caster option list"

text \<open>\<open>arg.nargs\<close>: \<open>None\<close>, an integer, or a string such as \<open>'*'\<close> and \<open>'+'\<close>.\<close>

datatype nargs_spec = NNone | NInt int | NStr string

text \<open>
  \<open>arg.choices\<close> is used only through \<open>val in choices\<close> and \<open>str(choices)\<close>: a container
  is its membership test and its printed form.
\<close>

datatype choice_set = Choices (ch_mem: "pyval \<Rightarrow> bool") (ch_str: string)

datatype argument =
  Argument (arg_name: string) (arg_required: bool) (arg_type: type_spec)
           (arg_default: pyval) (arg_choices: "choice_set option") (arg_nargs: nargs_spec)
           (arg_help: "string option") (subfields: "(string \<times> argument) list")

text \<open>\<open>Argument(name, required)\<close> with the defaults of \<open>__new__\<close>.\<close>

definition new_Argument :: "string \<Rightarrow> bool \<Rightarrow> argument" where
  "new_Argument n r = Argument n r (TOne None) VNone None NNone (Some []) []"

section \<open>The cast engine\<close>

text \<open>
  The value after the first two lines of \<open>cast\<close>: with \<open>nargs\<close> set it is a list (a value
  that is not a list is wrapped), otherwise it is the value as given.
\<close>

datatype prepared = Scalar pyval | Seq "pyval list"

definition prepare :: "nargs_spec \<Rightarrow> pyval \<Rightarrow> prepared" where
  "prepare na v =
     (if na \<noteq> NNone then (case v of VList xs \<Rightarrow> Seq xs | _ \<Rightarrow> Seq [v]) else Scalar v)"

definition prepared_val :: "prepared \<Rightarrow> pyval" where
  "prepared_val p = (case p of Scalar v \<Rightarrow> v | Seq xs \<Rightarrow> VList xs)"

text \<open>\<open>[cast(v) for v in value]\<close>: the first exception ends the comprehension.\<close>

fun map_exc :: "caster \<Rightarrow> pyval list \<Rightarrow> exn + pyval list" where
  "map_exc f [] = Inr []"
| "map_exc f (x # xs) =
     (case f x of Inl e \<Rightarrow> Inl e
      | Inr y \<Rightarrow> (case map_exc f xs of Inl e \<Rightarrow> Inl e | Inr ys \<Rightarrow> Inr (y # ys)))"

definition cast1 :: "prepared \<Rightarrow> caster option \<Rightarrow> exn + pyval" where
  "cast1 p c =
     (case c of
        None \<Rightarrow> Inr (prepared_val p)
      | Some f \<Rightarrow>
          (case p of
             Seq xs \<Rightarrow> (case map_exc f xs of Inl e \<Rightarrow> Inl e | Inr ys \<Rightarrow> Inr (VList ys))
           | Scalar v \<Rightarrow> f v))"

text \<open>
  The loop over \<open>casts[:-1]\<close> followed by \<open>casts[-1]\<close>; an empty tuple fails at
  \<open>casts[-1]\<close>.
\<close>

fun try_casts :: "prepared \<Rightarrow> caster option list \<Rightarrow> exn + pyval" where
  "try_casts p [] = Inl (Exn IndexError ''tuple index out of range'')"
| "try_casts p [c] = cast1 p c"
| "try_casts p (c # c' # cs) =
     (case cast1 p c of Inr r \<Rightarrow> Inr r | Inl e \<Rightarrow> try_casts p (c' # cs))"

definition casts_of :: "type_spec \<Rightarrow> caster option list" where
  "casts_of t = (case t of TOne c \<Rightarrow> [c] | TTuple cs \<Rightarrow> cs)"

text \<open>The two cardinality checks of \<open>cast\<close>; \<open>None\<close> when both pass.\<close>

definition nargs_error :: "argument \<Rightarrow> prepared \<Rightarrow> exn option" where
  "nargs_error arg p =
     (case p of
        Scalar v \<Rightarrow> None
      | Seq xs \<Rightarrow>
          (case arg_nargs arg of
             NInt n \<Rightarrow>
               (if int (length xs) \<noteq> n
                then Some (Exn ValueError
                       ([CHR 0x27] @ arg_name arg @ [CHR 0x27] @ '' requires exactly ''
                        @ show_int n @ '' arguments''))
                else None)
           | NStr s \<Rightarrow>
               (if s = ''+'' \<and> length xs = 0
                then Some (Exn ValueError
                       ([CHR 0x27] @ arg_name arg @ [CHR 0x27] @ '' requires at least one argument''))
                else None)
           | NNone \<Rightarrow> None))"

definition cast :: "argument \<Rightarrow> pyval \<Rightarrow> exn + pyval" where
  "cast arg v =
     (let p = prepare (arg_nargs arg) v in
      case nargs_error arg p of
        Some e \<Rightarrow> Inl e
      | None \<Rightarrow> try_casts p (casts_of (arg_type arg)))"


subsection \<open>The builtin casts \<open>int\<close> and \<open>str\<close>\<close>

definition is_space :: "char \<Rightarrow> bool" where
  "is_space c = ((of_char c :: nat) \<in> {32, 9, 10, 11, 12, 13})"

definition strip :: "string \<Rightarrow> string" where
  "strip s = rev (dropWhile is_space (rev (dropWhile is_space s)))"

definition is_digit :: "char \<Rightarrow> bool" where
  "is_digit c = (48 \<le> (of_char c :: nat) \<and> (of_char c :: nat) \<le> 57)"

definition digits_val :: "string \<Rightarrow> nat" where
  "digits_val ds = foldl (\<lambda>a c. 10 * a + (of_char c - 48)) 0 ds"

text \<open>
  A decimal literal as \<open>int(s)\<close> reads it: surrounding white space, an optional sign,
  one or more ASCII digits (digit-group underscores are not accepted).
\<close>

definition parse_int :: "string \<Rightarrow> int option" where
  "parse_int s =
     (let t = strip s;
          neg = (t \<noteq> [] \<and> hd t = CHR ''-'');
          ds = (if t \<noteq> [] \<and> (hd t = CHR ''-'' \<or> hd t = CHR ''+'') then tl t else t)
      in if ds \<noteq> [] \<and> list_all is_digit ds
         then Some (if neg then - int (digits_val ds) else int (digits_val ds))
         else None)"

definition py_int :: caster where
  "py_int v =
     (case v of
        VInt i \<Rightarrow> Inr (VInt i)
      | VBool b \<Rightarrow> Inr (VInt (if b then 1 else 0))
      | VStr s \<Rightarrow>
          (case parse_int s of
             Some i \<Rightarrow> Inr (VInt i)
           | None \<Rightarrow> Inl (Exn ValueError (''invalid literal for int() with base 10: '' @ repr_str s)))
      | _ \<Rightarrow> Inl (Exn TypeError ''int() argument must be a string or a number''))"

text \<open>
  \<open>str(v)\<close>; the printed form of a container depends on the interpreter and is the
  parameter \<open>pr\<close>.
\<close>

definition py_str :: "(pyval \<Rightarrow> string) \<Rightarrow> caster" where
  "py_str pr v =
     (case v of
        VStr s \<Rightarrow> Inr (VStr s)
      | VInt i \<Rightarrow> Inr (VStr (show_int i))
      | VNone \<Rightarrow> Inr (VStr ''None'')
      | VBool b \<Rightarrow> Inr (VStr (if b then ''True'' else ''False''))
      | _ \<Rightarrow> Inr (VStr (pr v)))"

section \<open>The namespace filler\<close>

text \<open>
  What the filler and the reader take from outside this module: the string method
  \<open>str.lower()\<close>, \<open>traceback.format_exc()\<close> (the text printed for the exception being
  handled), the plugin loader, and the construction and registration of the cosmology
  (\<open>None\<close> when they return normally).
\<close>

record collaborators =
  str_lower :: "string \<Rightarrow> string"
  format_exc :: "exn \<Rightarrow> string"
  load :: "pyval \<Rightarrow> exn option"
  Cosmology :: "pyval \<Rightarrow> exn option"

definition type_name :: "pyval \<Rightarrow> string" where
  "type_name v =
     (case v of VNone \<Rightarrow> ''NoneType'' | VBool _ \<Rightarrow> ''bool'' | VInt _ \<Rightarrow> ''int''
      | VStr _ \<Rightarrow> ''str'' | VList _ \<Rightarrow> ''list'' | VDict _ \<Rightarrow> ''OrderedDict''
      | VNs _ \<Rightarrow> ''Namespace'')"

definition no_attribute :: "pyval \<Rightarrow> string \<Rightarrow> exn" where
  "no_attribute v a =
     Exn AttributeError ([CHR 0x27] @ type_name v @ [CHR 0x27] @ '' object has no attribute ''
                         @ [CHR 0x27] @ a @ [CHR 0x27])"

text \<open>\<open>xs.index(x)\<close>, used only where \<open>x in xs\<close> holds.\<close>

fun index_of :: "'a \<Rightarrow> 'a list \<Rightarrow> nat" where
  "index_of x [] = 0"
| "index_of x (y # ys) = (if x = y then 0 else Suc (index_of x ys))"

text \<open>\<open>lw\<close> is \<open>str.lower\<close>.\<close>

definition case_insensitive_name_match :: "(string \<Rightarrow> string) \<Rightarrow> string \<Rightarrow> (string \<times> pyval) list
      \<Rightarrow> string option" where
  "case_insensitive_name_match lw schema_name config =
     (let config_names = map fst config;
          lowered_config_names = map lw config_names;
          lowered_schema_name = lw schema_name
      in if lowered_schema_name \<in> set lowered_config_names
         then Some (config_names ! index_of lowered_schema_name lowered_config_names)
         else None)"

text \<open>
  The state a fill works on: the namespace, the (sub-)document and the list of missing
  names. The document is any value: \<open>None\<close> below a container that was absent.
\<close>

type_synonym fill_state = "(string \<times> pyval) list \<times> pyval \<times> string list"

text \<open>The branch of \<open>fill_namespace\<close> for an argument without subfields.\<close>

definition fill_leaf :: "collaborators \<Rightarrow> argument \<Rightarrow> fill_state \<Rightarrow> exn + fill_state" where
  "fill_leaf env arg st =
     (case st of (ns, config, missing) \<Rightarrow>
       (let schema_name = last (split_dot (arg_name arg)) in
        case config of
          VNone \<Rightarrow> Inr (ns, config, missing)
        | VDict d \<Rightarrow>
            (case case_insensitive_name_match (str_lower env) schema_name d of
               Some config_match \<Rightarrow>
                 (case od_get config_match d of
                    None \<Rightarrow> Inl (Exn KeyError config_match)
                  | Some v \<Rightarrow>
                      (case cast arg v of
                         Inr r \<Rightarrow> Inr (od_set schema_name r ns, VDict (od_del config_match d), missing)
                       | Inl e \<Rightarrow>
                           Inl (Exn ConfigurationError
                                 (''unable to cast '' @ [CHR 0x27] @ arg_name arg @ [CHR 0x27]
                                  @ '' value: '' @ format_exc env e))))
             | None \<Rightarrow>
                 (if arg_required arg then Inr (ns, config, missing @ [arg_name arg])
                  else Inr (ns, config, missing)))
        | _ \<Rightarrow> Inl (no_attribute config ''keys'')))"

text \<open>\<open>config.pop(schema_name, None)\<close> on whatever \<open>config\<close> is.\<close>

definition pop_default :: "string \<Rightarrow> pyval \<Rightarrow> exn + (pyval \<times> pyval)" where
  "pop_default k config =
     (case config of
        VDict d \<Rightarrow>
          (case od_get k d of
             Some v \<Rightarrow> Inr (v, VDict (od_del k d))
           | None \<Rightarrow> Inr (VNone, config))
      | VList xs \<Rightarrow> Inl (Exn TypeError ''pop expected at most 1 argument, got 2'')
      | _ \<Rightarrow> Inl (no_attribute config ''pop''))"

text \<open>The end of the container branch: attach the sub-namespace when it is not empty.\<close>

definition attach_subns :: "argument \<Rightarrow> (string \<times> pyval) list \<Rightarrow> (string \<times> pyval) list
                              \<Rightarrow> exn + (string \<times> pyval) list" where
  "attach_subns arg subns ns =
     (if length subns \<noteq> 0 then
        (case cast arg (VNs subns) of
           Inr r \<Rightarrow> Inr (od_set (last (split_dot (arg_name arg))) r ns)
         | Inl e \<Rightarrow>
             Inl (Exn ConfigurationError
                   (''unable to cast '' @ [CHR 0x27] @ arg_name arg @ [CHR 0x27]
                    @ '' value: '' @ exn_str e)))
      else Inr ns)"

fun fill_namespace :: "collaborators \<Rightarrow> argument \<Rightarrow> fill_state \<Rightarrow> exn + fill_state"
  and fill_subfields :: "collaborators \<Rightarrow> (string \<times> argument) list \<Rightarrow> fill_state \<Rightarrow> exn + fill_state"
where
  "fill_namespace env (Argument nm rq ty df ch na hp subs) (ns, config, missing) =
     (if length subs = 0 then fill_leaf env (Argument nm rq ty df ch na hp subs) (ns, config, missing)
      else
        (case pop_default (last (split_dot nm)) config of
           Inl e \<Rightarrow> Inl e
         | Inr (subconfig, config') \<Rightarrow>
             (case fill_subfields env subs ([], subconfig, missing) of
                Inl e \<Rightarrow> Inl e
              | Inr (subns, drained, missing') \<Rightarrow>
                  (case attach_subns (Argument nm rq ty df ch na hp subs) subns ns of
                     Inl e \<Rightarrow> Inl e
                   | Inr ns' \<Rightarrow> Inr (ns', config', missing')))))"
| "fill_subfields env [] st = Inr st"
| "fill_subfields env ((k, a) # rest) st =
     (case fill_namespace env a st of
        Inl e \<Rightarrow> Inl e
      | Inr st' \<Rightarrow> fill_subfields env rest st')"


section \<open>The configuration-file reader\<close>

text \<open>
  What \<open>ordered_load\<close> hands back: an exception, \<open>None\<close>, a bare string or a mapping.
  A YAML stream whose root is a sequence or a number is outside the document type and is
  not represented.
\<close>

datatype loaded = LoadError exn | LoadNone | LoadStr string | LoadMap "(string \<times> pyval) list"

text \<open>\<open>for x in v\<close>: the items a loop over \<open>v\<close> visits.\<close>

definition py_iter :: "pyval \<Rightarrow> exn + pyval list" where
  "py_iter v =
     (case v of
        VList xs \<Rightarrow> Inr xs
      | VDict d \<Rightarrow> Inr (map (\<lambda>kv. VStr (fst kv)) d)
      | VStr s \<Rightarrow> Inr (map (\<lambda>c. VStr [c]) s)
      | _ \<Rightarrow> Inl (Exn TypeError ([CHR 0x27] @ type_name v @ [CHR 0x27] @ '' object is not iterable'')))"

fun load_all :: "(pyval \<Rightarrow> exn option) \<Rightarrow> pyval list \<Rightarrow> exn option" where
  "load_all ld [] = None"
| "load_all ld (p # ps) = (case ld p of Some e \<Rightarrow> Some e | None \<Rightarrow> load_all ld ps)"

text \<open>The reserved key \<open>X\<close>: load every plugin, then drop the key.\<close>

definition load_plugins :: "collaborators \<Rightarrow> (string \<times> pyval) list \<Rightarrow> exn + (string \<times> pyval) list" where
  "load_plugins env config =
     (case od_get ''X'' config of
        None \<Rightarrow> Inr config
      | Some plugins \<Rightarrow>
          (case py_iter (case plugins of VStr s \<Rightarrow> VList [plugins] | _ \<Rightarrow> plugins) of
             Inl e \<Rightarrow> Inl e
           | Inr ps \<Rightarrow>
               (case load_all (load env) ps of
                  Some e \<Rightarrow> Inl e
                | None \<Rightarrow> Inr (od_del ''X'' config))))"

text \<open>The reserved key \<open>cosmo\<close>: pop it and build the cosmology from it.\<close>

definition load_cosmo :: "collaborators \<Rightarrow> (string \<times> pyval) list \<Rightarrow> exn + (string \<times> pyval) list" where
  "load_cosmo env config =
     (case od_get ''cosmo'' config of
        None \<Rightarrow> Inr config
      | Some kw \<Rightarrow>
          (case Cosmology env kw of
             Some e \<Rightarrow> Inl e
           | None \<Rightarrow> Inr (od_del ''cosmo'' config)))"

text \<open>\<open>for k in extra: setattr(unknown, k, extra[k])\<close>\<close>

definition store_unknown :: "(string \<times> pyval) list \<Rightarrow> (string \<times> pyval) list" where
  "store_unknown extra = foldl (\<lambda>unknown kv. od_set (fst kv) (snd kv) unknown) [] extra"

text \<open>
  The body of \<open>ReadConfigFile\<close> from the plugins on. The loop over the schema is the loop
  of the container branch, started on the copy of the document. A fill that starts on a
  mapping ends on a mapping, so the last alternative is never taken.
\<close>

definition read_mapping :: "collaborators \<Rightarrow> (string \<times> pyval) list \<Rightarrow> (string \<times> argument) list
      \<Rightarrow> exn + ((string \<times> pyval) list \<times> (string \<times> pyval) list)" where
  "read_mapping env config schema =
     (case load_plugins env config of
        Inl e \<Rightarrow> Inl e
      | Inr config1 \<Rightarrow>
          (case load_cosmo env config1 of
             Inl e \<Rightarrow> Inl e
           | Inr config2 \<Rightarrow>
               (case fill_subfields env schema ([], VDict config2, []) of
                  Inl e \<Rightarrow> Inl e
                | Inr (ns, VDict extra, missing) \<Rightarrow>
                    (if length missing \<noteq> 0
                     then Inl (Exn ValueError (''missing required arguments: '' @ repr_str_list missing))
                     else Inr (ns, store_unknown extra))
                | Inr (ns, other, missing) \<Rightarrow> Inl (no_attribute other ''keys''))))"

definition ReadConfigFile :: "collaborators \<Rightarrow> loaded \<Rightarrow> (string \<times> argument) list
      \<Rightarrow> exn + ((string \<times> pyval) list \<times> (string \<times> pyval) list)" where
  "ReadConfigFile env config_stream schema =
     (case config_stream of
        LoadError e \<Rightarrow> Inl (Exn ConfigurationError (''error parsing YAML file: '' @ exn_str e))
      | LoadNone \<Rightarrow> Inl (Exn EmptyConfigurationError ''no valid keys found'')
      | LoadStr s \<Rightarrow> Inl (Exn EmptyConfigurationError ''no valid keys found'')
      | LoadMap config \<Rightarrow> read_mapping env config schema)"

section \<open>Declaring arguments\<close>

definition set_subfields :: "argument \<Rightarrow> (string \<times> argument) list \<Rightarrow> argument" where
  "set_subfields a s =
     Argument (arg_name a) (arg_required a) (arg_type a) (arg_default a) (arg_choices a)
              (arg_nargs a) (arg_help a) s"

text \<open>
  The loop of \<open>contains\<close>: every step looks its key up in the schema itself
  (\<open>obj = self[k].subfields\<close>), and a key the schema does not hold raises \<open>KeyError\<close>.
\<close>

fun contains_loop :: "(string \<times> argument) list \<Rightarrow> string list \<Rightarrow> (string \<times> argument) list
      \<Rightarrow> exn + (string \<times> argument) list" where
  "contains_loop self [] obj = Inr obj"
| "contains_loop self (k # ks) obj =
     (case od_get k self of
        None \<Rightarrow> Inl (Exn KeyError k)
      | Some a \<Rightarrow> contains_loop self ks (subfields a))"

definition contains :: "(string \<times> argument) list \<Rightarrow> string \<Rightarrow> exn + bool" where
  "contains self key =
     (let split = split_dot key; prefix = butlast split; name = last split in
      case contains_loop self prefix self of
        Inl e \<Rightarrow> Inl e
      | Inr obj \<Rightarrow> Inr (od_mem name obj))"

text \<open>
  The first loop of \<open>add_argument\<close>. The source walks down through the shared
  \<open>subfields\<close> dictionaries and assigns in place; here the walk rebuilds the path it
  went down. \<open>done\<close> is \<open>prefix[:i]\<close>.
\<close>

fun create_parents :: "string list \<Rightarrow> string list \<Rightarrow> bool \<Rightarrow> (string \<times> argument) list
      \<Rightarrow> (string \<times> argument) list" where
  "create_parents done [] required obj = obj"
| "create_parents done (k # ks) required obj =
     (let obj1 = (if \<not> od_mem k obj
                  then od_set k (new_Argument (join_dot (done @ [k])) required) obj
                  else obj)
      in case od_get k obj1 of
           None \<Rightarrow> obj1
         | Some a \<Rightarrow>
             od_set k (set_subfields a (create_parents (done @ [k]) ks required (subfields a))) obj1)"

text \<open>An assignment \<open>f\<close> carried out on the dictionary that the prefix leads to.\<close>

fun update_at :: "string list \<Rightarrow> ((string \<times> argument) list \<Rightarrow> exn + (string \<times> argument) list)
      \<Rightarrow> (string \<times> argument) list \<Rightarrow> exn + (string \<times> argument) list" where
  "update_at [] f obj = f obj"
| "update_at (k # ks) f obj =
     (case od_get k obj of
        None \<Rightarrow> Inl (Exn KeyError k)
      | Some a \<Rightarrow>
          (case update_at ks f (subfields a) of
             Inl e \<Rightarrow> Inl e
           | Inr s \<Rightarrow> Inr (od_set k (set_subfields a s) obj)))"

text \<open>The declared fields of an \<open>add_argument\<close> call, besides the name.\<close>

record declared =
  d_type :: type_spec
  d_default :: pyval
  d_choices :: "choice_set option"
  d_nargs :: nargs_spec
  d_help :: "string option"
  d_required :: bool

text \<open>\<open>obj[suffix] = Argument(name, required, ...)\<close> with empty subfields.\<close>

definition insert_new :: "string \<Rightarrow> string \<Rightarrow> declared \<Rightarrow> (string \<times> argument) list
      \<Rightarrow> exn + (string \<times> argument) list" where
  "insert_new name suffix dc obj =
     Inr (od_set suffix
            (Argument name (d_required dc) (d_type dc) (d_default dc) (d_choices dc)
                      (d_nargs dc) (d_help dc) [])
            obj)"

text \<open>\<open>obj[suffix] = obj[suffix]._replace(...)\<close>: name and subfields stay.\<close>

definition replace_old :: "string \<Rightarrow> declared \<Rightarrow> (string \<times> argument) list
      \<Rightarrow> exn + (string \<times> argument) list" where
  "replace_old suffix dc obj =
     (case od_get suffix obj of
        None \<Rightarrow> Inl (Exn KeyError suffix)
      | Some old \<Rightarrow>
          Inr (od_set suffix
                 (Argument (arg_name old) (d_required dc) (d_type dc) (d_default dc) (d_choices dc)
                           (d_nargs dc) (d_help dc) (subfields old))
                 obj))"

text \<open>
  \<open>add_argument\<close> returns the exception it raised, if any, and the schema as it is left:
  the parents the first loop created stay when a later step raises.
\<close>

definition add_argument :: "string \<Rightarrow> declared \<Rightarrow> (string \<times> argument) list
      \<Rightarrow> exn option \<times> (string \<times> argument) list" where
  "add_argument name dc self =
     (let split = split_dot name; prefix = butlast split; suffix = last split;
          self1 = create_parents [] prefix (d_required dc) self
      in case contains self1 name of
           Inl e \<Rightarrow> (Some e, self1)
         | Inr c \<Rightarrow>
             (case update_at prefix
                     (if \<not> c then insert_new name suffix dc else replace_old suffix dc) self1 of
                Inl e \<Rightarrow> (Some e, self1)
              | Inr self2 \<Rightarrow> (None, self2)))"

text \<open>Sequential access \<open>schema[k1][k2]...\<close> along a path of keys.\<close>

fun lookup_path :: "(string \<times> argument) list \<Rightarrow> string list \<Rightarrow> argument option" where
  "lookup_path obj [] = None"
| "lookup_path obj [k] = od_get k obj"
| "lookup_path obj (k # k' # ks) =
     (case od_get k obj of None \<Rightarrow> None | Some a \<Rightarrow> lookup_path (subfields a) (k' # ks))"


section \<open>The constructor wrapper\<close>

definition check_choices :: "(string \<times> argument) list \<Rightarrow> string \<Rightarrow> pyval \<Rightarrow> exn option" where
  "check_choices schema attr val =
     (case od_get attr schema of
        None \<Rightarrow> None
      | Some arg \<Rightarrow>
          (case arg_choices arg of
             None \<Rightarrow> None
           | Some ch \<Rightarrow>
               (if \<not> ch_mem ch val
                then Some (Exn ValueError
                       (''valid choices for '' @ [CHR 0x27] @ arg_name arg @ [CHR 0x27] @ '' are: ''
                        @ [CHR 0x27] @ ch_str ch @ [CHR 0x27]))
                else None)))"

text \<open>
  The three lists of \<open>get_init_errmsg\<close>. The source builds \<open>duplicated\<close> and the keys
  of \<open>extra\<close> from Python sets, whose order is not fixed; here the names come in the
  order of \<open>posargs\<close>, then of \<open>kwargs\<close>.
\<close>

definition init_duplicated :: "(string \<times> pyval) list \<Rightarrow> (string \<times> pyval) list \<Rightarrow> string list" where
  "init_duplicated posargs kwargs = filter (\<lambda>k. od_mem k kwargs) (map fst posargs)"

definition init_missing :: "(string \<times> argument) list \<Rightarrow> (string \<times> pyval) list
      \<Rightarrow> (string \<times> pyval) list \<Rightarrow> string list" where
  "init_missing schema posargs kwargs =
     (let required = filter (\<lambda>s. case od_get s schema of None \<Rightarrow> False | Some a \<Rightarrow> arg_required a)
                            (map fst schema)
      in filter (\<lambda>r. \<not> od_mem r posargs \<and> \<not> od_mem r kwargs) required)"

definition init_extra :: "(string \<times> argument) list \<Rightarrow> (string \<times> pyval) list
      \<Rightarrow> (string \<times> pyval) list \<Rightarrow> string list" where
  "init_extra schema posargs kwargs =
     (let keys = map fst posargs @ filter (\<lambda>k. \<not> od_mem k posargs) (map fst kwargs)
      in filter (\<lambda>k. \<not> od_mem k schema) keys)"

text \<open>\<open>"\t%-25s: %s\n" % (s, str(names))\<close>, added when \<open>names\<close> is not empty.\<close>

definition errmsg_line :: "string \<Rightarrow> string list \<Rightarrow> string" where
  "errmsg_line s names =
     (if length names \<noteq> 0
      then [CHR 0x09] @ ljust25 s @ '': '' @ repr_str_list names @ [CHR 0x0A]
      else [])"

definition get_init_errmsg :: "(string \<times> argument) list \<Rightarrow> (string \<times> pyval) list
      \<Rightarrow> (string \<times> pyval) list \<Rightarrow> string" where
  "get_init_errmsg schema posargs kwargs =
     errmsg_line ''duplicated arguments'' (init_duplicated posargs kwargs)
     @ errmsg_line ''missing arguments'' (init_missing schema posargs kwargs)
     @ errmsg_line ''extra arguments'' (init_extra schema posargs kwargs)"

text \<open>
  An exception object raised by \<open>init\<close>: its identity and what it holds. What leaves the
  wrapper as an exception is either a new exception, created by a \<open>raise\<close> statement of
  the code modelled here, or an object that existed before and is raised again.
\<close>

datatype exc_object = ExcObject (obj_id: nat) (obj_exn: exn)

datatype raised = Created exn | Reraised exc_object

text \<open>
  What \<open>autoassign\<close> closes over: the class name, the schema attached to \<open>init\<close>, the
  signature read by \<open>inspect.getargspec\<close>, the allowed ambient names, the two flags and
  the values of \<open>get_nbkit_comm()\<close> and \<open>get_nbkit_cosmo()\<close>. The instance \<open>self\<close> is
  its attribute dictionary; \<open>init\<close> returns the instance as it leaves it, or raises an
  exception object.
\<close>

record wrapped =
  cls_name :: string
  init :: "(string \<times> pyval) list \<Rightarrow> pyval list \<Rightarrow> (string \<times> pyval) list
           \<Rightarrow> exc_object + (string \<times> pyval) list"
  schema_of :: "(string \<times> argument) list"
  attrs :: "string list"
  varargs :: "string option"
  defaults :: "pyval list"
  allowed :: "string list"
  attach_comm :: bool
  attach_cosmo :: bool
  nbkit_comm :: pyval
  nbkit_cosmo :: pyval

text \<open>\<open>for k in allowed: if k in kwargs: setattr(self, k, kwargs.pop(k))\<close>\<close>

fun pop_allowed :: "string list \<Rightarrow> (string \<times> pyval) list \<times> (string \<times> pyval) list
      \<Rightarrow> (string \<times> pyval) list \<times> (string \<times> pyval) list" where
  "pop_allowed [] st = st"
| "pop_allowed (k # ks) (self, kwargs) =
     (case od_get k kwargs of
        None \<Rightarrow> pop_allowed ks (self, kwargs)
      | Some v \<Rightarrow> pop_allowed ks (od_set k v self, od_del k kwargs))"

definition set_all :: "(string \<times> pyval) list \<Rightarrow> (string \<times> pyval) list \<Rightarrow> (string \<times> pyval) list" where
  "set_all kvs self = foldl (\<lambda>s kv. od_set (fst kv) (snd kv) s) self kvs"

text \<open>The loop over the positional arguments: choices checked, \<open>posargs\<close> filled.\<close>

fun bind_positional :: "(string \<times> argument) list \<Rightarrow> (string \<times> pyval) list
      \<Rightarrow> (string \<times> pyval) list \<times> (string \<times> pyval) list
      \<Rightarrow> exn + ((string \<times> pyval) list \<times> (string \<times> pyval) list)" where
  "bind_positional schema [] st = Inr st"
| "bind_positional schema ((attr, val) # rest) (posargs, self) =
     (case check_choices schema attr val of
        Some e \<Rightarrow> Inl e
      | None \<Rightarrow> bind_positional schema rest (od_set attr val posargs, od_set attr val self))"

text \<open>The loop over the keyword arguments.\<close>

fun bind_keywords :: "(string \<times> argument) list \<Rightarrow> (string \<times> pyval) list
      \<Rightarrow> (string \<times> pyval) list \<Rightarrow> exn + (string \<times> pyval) list" where
  "bind_keywords schema [] self = Inr self"
| "bind_keywords schema ((attr, val) # rest) self =
     (case check_choices schema attr val of
        Some e \<Rightarrow> Inl e
      | None \<Rightarrow> bind_keywords schema rest (od_set attr val self))"

text \<open>The message that replaces \<open>e.args\<close> when \<open>init\<close> raised \<open>e\<close>.\<close>

definition init_error_msg :: "string \<Rightarrow> exn \<Rightarrow> string \<Rightarrow> string" where
  "init_error_msg cls e errmsg =
     [CHR 0x0A] @ replicate 75 CHR ''-'' @ [CHR 0x0A]
     @ ''error initializing __init__ for '' @ [CHR 0x27] @ cls @ [CHR 0x27] @ '':'' @ [CHR 0x0A]
     @ [CHR 0x09] @ ljust25 ''original error message'' @ '': '' @ [CHR 0x27] @ exn_str e @ [CHR 0x27]
     @ [CHR 0x0A]
     @ (if length errmsg \<noteq> 0 then errmsg @ [CHR 0x0A] else [])
     @ replicate 75 CHR ''-'' @ [CHR 0x0A]"

text \<open>
  The state in which the wrapper reaches the call of \<open>init\<close>: the instance, \<open>posargs\<close>
  and the keyword arguments left after the allowed names were popped; or the exception of
  a failed choice check. A tuple of overflow arguments is stored as a list.
\<close>

definition bind_args :: "wrapped \<Rightarrow> (string \<times> pyval) list \<Rightarrow> pyval list \<Rightarrow> (string \<times> pyval) list
      \<Rightarrow> exn + ((string \<times> pyval) list \<times> (string \<times> pyval) list \<times> (string \<times> pyval) list)" where
  "bind_args w self0 args kwargs0 =
     (let self1 = (if attach_comm w then od_set ''comm'' (nbkit_comm w) self0 else self0);
          self2 = (if attach_cosmo w then od_set ''cosmo'' (nbkit_cosmo w) self1 else self1);
          (self3, kwargs) = pop_allowed (allowed w) (self2, kwargs0);
          self4 = set_all (zip (rev (attrs w)) (rev (defaults w))) self3;
          positional_attrs = tl (attrs w)
      in case bind_positional (schema_of w) (zip positional_attrs args) ([], self4) of
           Inl e \<Rightarrow> Inl e
         | Inr (posargs, self5) \<Rightarrow>
             (let self6 = (case varargs w of
                             None \<Rightarrow> self5
                           | Some va \<Rightarrow> od_set va (VList (drop (length positional_attrs) args)) self5)
              in case bind_keywords (schema_of w) kwargs self6 of
                   Inl e \<Rightarrow> Inl e
                 | Inr self7 \<Rightarrow> Inr (self7, posargs, kwargs)))"

text \<open>
  The wrapper. A failed choice check is a new \<open>ValueError\<close>. When \<open>init\<close> raises, the
  handler assigns the enriched message to \<open>e.args\<close> and ends with a bare \<open>raise\<close>: the
  object caught is raised again, with its class and identity and with the new argument.
\<close>

definition wrapper :: "wrapped \<Rightarrow> (string \<times> pyval) list \<Rightarrow> pyval list \<Rightarrow> (string \<times> pyval) list
      \<Rightarrow> raised + (string \<times> pyval) list" where
  "wrapper w self0 args kwargs0 =
     (case bind_args w self0 args kwargs0 of
        Inl e \<Rightarrow> Inl (Created e)
      | Inr (self, posargs, kwargs) \<Rightarrow>
          (case init w self args kwargs of
             Inr self' \<Rightarrow> Inr self'
           | Inl ob \<Rightarrow>
               Inl (Reraised
                     (ExcObject (obj_id ob)
                        (Exn (exc_type (obj_exn ob))
                           (init_error_msg (cls_name w) (obj_exn ob)
                              (get_init_errmsg (schema_of w) posargs kwargs)))))))"

section \<open>Reconciling a schema with a signature\<close>

text \<open>The required names and the names with a default, from \<open>attrs\<close> and \<open>defaults\<close>.\<close>

definition sig_args :: "string list \<Rightarrow> string list" where
  "sig_args atts = tl atts"

definition sig_required :: "string list \<Rightarrow> pyval list \<Rightarrow> string list" where
  "sig_required atts dfs =
     (if length dfs \<noteq> 0 then take (length (sig_args atts) - length dfs) (sig_args atts)
      else sig_args atts)"

definition sig_default_names :: "string list \<Rightarrow> pyval list \<Rightarrow> string list" where
  "sig_default_names atts dfs =
     (if length dfs \<noteq> 0 then drop (length (sig_args atts) - length dfs) (sig_args atts)
      else [])"

text \<open>The argument rebuilt from \<open>a._asdict()\<close> with \<open>required\<close> and \<open>default\<close> inferred.\<close>

definition infer_entry :: "string list \<Rightarrow> pyval list \<Rightarrow> argument \<Rightarrow> argument" where
  "infer_entry atts dfs a =
     Argument (arg_name a) (arg_name a \<in> set (sig_required atts dfs)) (arg_type a)
              (if arg_name a \<in> set (sig_default_names atts dfs)
               then dfs ! index_of (arg_name a) (sig_default_names atts dfs)
               else arg_default a)
              (arg_choices a) (arg_nargs a) (arg_help a) (subfields a)"

text \<open>
  The loop over the schema's keys; the state is the schema, \<open>extra\<close> and \<open>missing\<close>.
\<close>

fun update_loop :: "string list \<Rightarrow> pyval list \<Rightarrow> string list \<Rightarrow> string list
      \<Rightarrow> (string \<times> argument) list \<times> string list \<times> string list
      \<Rightarrow> (string \<times> argument) list \<times> string list \<times> string list" where
  "update_loop atts dfs alw [] st = st"
| "update_loop atts dfs alw (name # names) (schema, extra, missing) =
     (case od_get name schema of
        None \<Rightarrow> update_loop atts dfs alw names (schema, extra, missing)
      | Some a \<Rightarrow>
          update_loop atts dfs alw names
            (od_set name (infer_entry atts dfs a) schema,
             (if arg_name a \<notin> set (sig_args atts) \<and> arg_name a \<notin> set alw
              then extra @ [arg_name a] else extra),
             (if arg_name a \<notin> set (sig_args atts) \<and> arg_name a \<notin> set alw then missing
              else if arg_name a \<in> set missing then remove1 (arg_name a) missing
              else missing)))"

text \<open>The schema rebuilt in the order of the signature, the allowed names last.\<close>

definition reorder :: "string list \<Rightarrow> string list \<Rightarrow> (string \<times> argument) list
      \<Rightarrow> (string \<times> argument) list" where
  "reorder args alw schema =
     foldl (\<lambda>new k. case od_get k schema of None \<Rightarrow> new | Some a \<Rightarrow> od_set k a new) [] (args @ alw)"

text \<open>
  \<open>update_schema\<close> returns the exception it raised, if any, and the schema as it is left.
  The help text appended to \<open>func.__doc__\<close> is left out.
\<close>

definition update_schema :: "string list \<Rightarrow> pyval list \<Rightarrow> string list \<Rightarrow> (string \<times> argument) list
      \<Rightarrow> exn option \<times> (string \<times> argument) list" where
  "update_schema atts dfs alw schema0 =
     (let args = sig_args atts;
          (schema, extra, missing) =
             update_loop atts dfs alw (map fst schema0)
               (schema0, [], sig_default_names atts dfs @ sig_required atts dfs)
      in if length missing \<noteq> 0
         then (Some (Exn ValueError (''missing arguments in schema : '' @ repr_str_list missing @ '' '')),
               schema)
         else if length extra \<noteq> 0
         then (Some (Exn ValueError (''extra arguments in schema : '' @ repr_str_list extra)), schema)
         else if filter (\<lambda>k. k \<in> set args) (map fst schema) \<noteq> args
         then (None, reorder args alw schema)
         else (None, schema))"

section \<open>Auxiliary notions for the statements\<close>

text \<open>The local key of an argument: the last segment of its dotted name.\<close>

definition local_name :: "argument \<Rightarrow> string" where
  "local_name a = last (split_dot (arg_name a))"

text \<open>A document with one key taken out; any other value is left as it is.\<close>

definition without_key :: "string \<Rightarrow> pyval \<Rightarrow> pyval" where
  "without_key k c = (case c of VDict d \<Rightarrow> VDict (od_del k d) | _ \<Rightarrow> c)"

text \<open>
  The walk as the claims describe it, to compare \<open>fill_namespace\<close> with. An argument
  takes out of a document the first key equal to its local name up to case when it is a
  leaf, and the key that is its local name when it is a container.
\<close>

definition consume_doc :: "(string \<Rightarrow> string) \<Rightarrow> argument \<Rightarrow> (string \<times> pyval) list
      \<Rightarrow> (string \<times> pyval) list" where
  "consume_doc lw a d =
     (if subfields a = []
      then (case find (\<lambda>k. lw k = lw (local_name a)) (map fst d) of
              None \<Rightarrow> d
            | Some k \<Rightarrow> od_del k d)
      else od_del (local_name a) d)"

definition consume :: "(string \<Rightarrow> string) \<Rightarrow> argument \<Rightarrow> pyval \<Rightarrow> pyval" where
  "consume lw a config = (case config of VDict d \<Rightarrow> VDict (consume_doc lw a d) | _ \<Rightarrow> config)"

text \<open>What the entries of a schema, one after the other, leave of a document.\<close>

fun residual_doc :: "(string \<Rightarrow> string) \<Rightarrow> (string \<times> argument) list \<Rightarrow> (string \<times> pyval) list
      \<Rightarrow> (string \<times> pyval) list" where
  "residual_doc lw [] d = d"
| "residual_doc lw (na # rest) d = residual_doc lw rest (consume_doc lw (snd na) d)"



text \<open>
  Collaborators that never raise, with the ASCII case folding, and a leaf argument
  without type, choices or arity, for the concrete runs.
\<close>

definition plain_env :: collaborators where
  "plain_env = \<lparr>str_lower = ascii_lower, format_exc = (\<lambda>e. []), load = (\<lambda>p. None),
                Cosmology = (\<lambda>kw. None)\<rparr>"

definition plain_leaf :: "string \<Rightarrow> bool \<Rightarrow> argument" where
  "plain_leaf n r = Argument n r (TOne None) VNone None NNone (Some []) []"


text \<open>A declaration of a required argument with nothing else set.\<close>

definition decl_required :: declared where
  "decl_required = \<lparr>d_type = TOne None, d_default = VNone, d_choices = None, d_nargs = NNone,
                     d_help = None, d_required = True\<rparr>"

text \<open>
  A wrapped constructor \<open>__init__(self, name, size=10)\<close> of a class \<open>Box\<close>, with \<open>name\<close>
  declared required and \<open>size\<close> optional; its call fails, as a Python call does, when
  \<open>name\<close> comes both positionally and by keyword.
\<close>

definition box_wrapped :: wrapped where
  "box_wrapped =
     \<lparr>cls_name = ''Box'',
      init = (\<lambda>self args kwargs.
                if args \<noteq> [] \<and> od_mem ''name'' kwargs
                then Inl (ExcObject 1
                            (Exn TypeError ''__init__() got multiple values for argument name''))
                else Inr self),
      schema_of = [(''name'', plain_leaf ''name'' True),
                   (''size'', Argument ''size'' False (TOne None) (VInt 10) None NNone (Some []) [])],
      attrs = [''self'', ''name'', ''size''],
      varargs = None,
      defaults = [VInt 10],
      allowed = [''comm''],
      attach_comm = True,
      attach_cosmo = False,
      nbkit_comm = VNone,
      nbkit_cosmo = VNone\<rparr>"

section \<open>Properties of the cast engine\<close>


lemma try_casts_first_success:
  "\<forall>c' \<in> set pre. isl (cast1 p c') \<Longrightarrow> cast1 p c = Inr r \<Longrightarrow> try_casts p (pre @ c # post) = Inr r"
proof (induction pre)
  case Nil
  then show ?case by (cases post) simp_all
next
  case (Cons a pre)
  then obtain e where "cast1 p a = Inl e" by (cases "cast1 p a") auto
  moreover obtain x xs where "pre @ c # post = x # xs" by (cases pre) auto
  ultimately show ?case using Cons by simp
qed

lemma try_casts_all_fail:
  "cs \<noteq> [] \<Longrightarrow> \<forall>c' \<in> set (butlast cs). isl (cast1 p c') \<Longrightarrow> try_casts p cs = cast1 p (last cs)"
proof (induction p cs rule: try_casts.induct)
  case (1 p)
  then show ?case by simp
next
  case (2 p c)
  then show ?case by simp
next
  case (3 p c c' cs)
  then obtain e where "cast1 p c = Inl e" by (cases "cast1 p c") auto
  then show ?case using 3 by simp
qed

lemma py_int_abc: "isl (py_int (VStr ''abc''))"
  by code_simp

lemma py_int_42: "py_int (VStr ''42'') = Inr (VInt 42)"
  by code_simp

text \<open>
  Claim C3. With a tuple of cast functions as type (and the cardinality checks passed),
  \<open>cast\<close> returns the result of the first candidate that succeeds, whatever the
  candidates before it raised; when every candidate but the last fails, the outcome is the
  outcome of the last one, its failure included. With \<open>(int, str)\<close> the text \<open>abc\<close> comes
  back unchanged and the text \<open>42\<close> becomes the integer 42.
\<close>

theorem cast_fallback:
  assumes "arg_type arg = TTuple cs" and "cs \<noteq> []"
    and "nargs_error arg (prepare (arg_nargs arg) v) = None"
  shows "(cs = pre @ c # post
            \<and> (\<forall>c' \<in> set pre. isl (cast1 (prepare (arg_nargs arg) v) c'))
            \<and> cast1 (prepare (arg_nargs arg) v) c = Inr r
          \<longrightarrow> cast arg v = Inr r)
       \<and> ((\<forall>c' \<in> set (butlast cs). isl (cast1 (prepare (arg_nargs arg) v) c'))
          \<longrightarrow> cast arg v = cast1 (prepare (arg_nargs arg) v) (last cs))
       \<and> cast (Argument nm rq (TTuple [Some py_int, Some (py_str pr)]) df ch NNone hp sf) (VStr ''abc'')
            = Inr (VStr ''abc'')
       \<and> cast (Argument nm rq (TTuple [Some py_int, Some (py_str pr)]) df ch NNone hp sf) (VStr ''42'')
            = Inr (VInt 42)"
proof -
  have a: "cast (Argument nm rq (TTuple [Some py_int, Some (py_str pr)]) df ch NNone hp sf) (VStr ''abc'')
            = Inr (VStr ''abc'')"
    using py_int_abc
    by (auto simp: cast_def casts_of_def prepare_def nargs_error_def cast1_def py_str_def
             split: sum.splits)
  have b: "cast (Argument nm rq (TTuple [Some py_int, Some (py_str pr)]) df ch NNone hp sf) (VStr ''42'')
            = Inr (VInt 42)"
    by (simp add: cast_def casts_of_def prepare_def nargs_error_def cast1_def py_int_42)
  show ?thesis
    using assms a b
    by (auto simp: cast_def casts_of_def try_casts_first_success try_casts_all_fail)
qed

theorem cast_fallback_witness:
  "cast (Argument ''n'' False (TTuple [Some py_int, Some (py_str (\<lambda>v. []))]) VNone None NNone None [])
        (VStr ''42'') = Inr (VInt 42)
   \<and> cast (Argument ''n'' False (TTuple [Some py_int, Some (py_str (\<lambda>v. []))]) VNone None NNone None [])
        (VStr ''abc'') = Inr (VStr ''abc'')"
proof -
  let ?cs = "[Some py_int, Some (py_str (\<lambda>v. []))]"
  let ?arg = "Argument ''n'' False (TTuple ?cs) VNone None NNone None []"
  have t: "arg_type ?arg = TTuple ?cs" by simp
  have n: "?cs \<noteq> []" by simp
  have e1: "nargs_error ?arg (prepare (arg_nargs ?arg) (VStr ''42'')) = None"
    by (simp add: nargs_error_def prepare_def)
  have e2: "nargs_error ?arg (prepare (arg_nargs ?arg) (VStr ''abc'')) = None"
    by (simp add: nargs_error_def prepare_def)
  have "cast ?arg (VStr ''42'') = Inr (VInt 42)"
    using cast_fallback [OF t n e1, of "[]" "Some py_int" "[Some (py_str (\<lambda>v. []))]" "VInt 42"]
    by (simp add: prepare_def cast1_def py_int_42)
  moreover have "cast ?arg (VStr ''abc'') = Inr (VStr ''abc'')"
    using cast_fallback [OF t n e2, of "[]" "Some py_int" "[Some (py_str (\<lambda>v. []))]" "VInt 42"] py_int_abc
    by (simp add: prepare_def cast1_def py_str_def)
  ultimately show ?thesis by simp
qed









section \<open>Properties of the namespace filler\<close>

text \<open>
  Claim C1, at the input where the code departs from it. The schema holds the container
  \<open>field\<close> with the required leaf \<open>field.Nmesh\<close>; the document spells the container's key
  \<open>Field\<close>. The container branch pops the exact name only: nothing is matched, nothing is
  set, the key stays in the document and the required leaf is not even recorded as missing.
\<close>

theorem fill_container_key_exact_match_only:
  "fill_namespace env
     (Argument ''field'' False (TOne None) VNone None NNone None
        [(''Nmesh'', Argument ''field.Nmesh'' True (TOne None) VNone None NNone None [])])
     ([], VDict [(''Field'', VDict [(''Nmesh'', VInt 64)])], [])
   = Inr ([], VDict [(''Field'', VDict [(''Nmesh'', VInt 64)])], [])"
  by (simp add: pop_default_def od_get_def fill_leaf_def attach_subns_def)

lemma fill_leaf_None: "fill_leaf env a (ns, VNone, missing) = Inr (ns, VNone, missing)"
  by (simp add: fill_leaf_def)

lemma fill_namespace_leaf_None:
  "subfields a = [] \<Longrightarrow> fill_namespace env a (ns, VNone, missing) = Inr (ns, VNone, missing)"
  by (cases a) (simp add: fill_leaf_None)

lemma fill_namespace_container_None:
  "subfields a \<noteq> [] \<Longrightarrow> fill_namespace env a (ns, VNone, missing) = Inl (no_attribute VNone ''pop'')"
  by (cases a) (simp add: pop_default_def)

lemma fill_subfields_None:
  "\<exists>kc \<in> set subs. subfields (snd kc) \<noteq> [] \<Longrightarrow>
   fill_subfields env subs (ns, VNone, missing) = Inl (no_attribute VNone ''pop'')"
proof (induction subs)
  case Nil
  then show ?case by simp
next
  case (Cons kc subs)
  obtain k c where kc: "kc = (k, c)" by (cases kc)
  show ?case
  proof (cases "subfields c = []")
    case True
    then show ?thesis using Cons kc by (simp add: fill_namespace_leaf_None)
  next
    case False
    then show ?thesis using kc by (simp add: fill_namespace_container_None)
  qed
qed

text \<open>
  Claim C10. A container whose local name is not a key of the document, and that has a
  child which is itself a container, makes the fill raise the \<open>AttributeError\<close> of
  \<open>None.pop\<close>: the absent sub-document is handed down as \<open>None\<close>, no name is recorded as
  missing and no \<open>ConfigurationError\<close> is raised.
\<close>

theorem fill_absent_container_raises:
  assumes "subfields arg \<noteq> []"
    and "od_get (last (split_dot (arg_name arg))) d = None"
    and "\<exists>kc \<in> set (subfields arg). subfields (snd kc) \<noteq> []"
  shows "fill_namespace env arg (ns, VDict d, missing)
           = Inl (Exn AttributeError
                   ([CHR 0x27] @ ''NoneType'' @ [CHR 0x27] @ '' object has no attribute ''
                    @ [CHR 0x27] @ ''pop'' @ [CHR 0x27]))"
proof (cases arg)
  case (Argument nm rq ty df ch na hp subs)
  then have "fill_subfields env subs ([], VNone, missing) = Inl (no_attribute VNone ''pop'')"
    using assms(3) by (simp add: fill_subfields_None)
  then show ?thesis
    using Argument assms(1,2) by (simp add: pop_default_def no_attribute_def type_name_def)
qed

theorem fill_absent_container_raises_witness:
  "fill_namespace plain_env
     (Argument ''a'' False (TOne None) VNone None NNone None
        [(''x'', Argument ''a.x'' True (TOne None) VNone None NNone None []),
         (''b'', Argument ''a.b'' False (TOne None) VNone None NNone None
                   [(''c'', Argument ''a.b.c'' True (TOne None) VNone None NNone None [])])])
     ([], VDict [(''other'', VInt 1)], [])
   = Inl (Exn AttributeError
           ([CHR 0x27] @ ''NoneType'' @ [CHR 0x27] @ '' object has no attribute ''
            @ [CHR 0x27] @ ''pop'' @ [CHR 0x27]))"
  by (rule fill_absent_container_raises) (simp_all add: od_get_def)

lemma cinm_Nil: "case_insensitive_name_match lw n [] = None"
  by (simp add: case_insensitive_name_match_def)

lemma cinm_Cons:
  "case_insensitive_name_match lw n (kv # d)
     = (if lw (fst kv) = lw n then Some (fst kv) else case_insensitive_name_match lw n d)"
  by (auto simp: case_insensitive_name_match_def Let_def)

lemma cinm_find:
  "case_insensitive_name_match lw n d = find (\<lambda>k. lw k = lw n) (map fst d)"
  by (induction d) (simp_all add: cinm_Nil cinm_Cons)

lemma cinm_Some:
  "case_insensitive_name_match lw n d = Some k \<Longrightarrow> k \<in> fst ` set d \<and> lw k = lw n"
  unfolding cinm_find by (induction d) (auto split: if_splits)


lemma cinm_None_filter:
  "case_insensitive_name_match lw n d = None \<Longrightarrow> case_insensitive_name_match lw n (filter P d) = None"
  by (induction d) (auto simp: cinm_Nil cinm_Cons split: if_splits)

lemma cinm_od_del:
  "case_insensitive_name_match lw n d \<noteq> Some k \<Longrightarrow>
   case_insensitive_name_match lw n (od_del k d) = case_insensitive_name_match lw n d"
  by (induction d) (auto simp: cinm_Nil cinm_Cons od_del_def split: if_splits)

lemma od_get_mem: "k \<in> fst ` set d \<Longrightarrow> \<exists>v. od_get k d = Some v"
  by (metis od_get_def map_of_eq_None_iff not_Some_eq)

lemma od_get_od_del: "k' \<noteq> k \<Longrightarrow> od_get k' (od_del k d) = od_get k' d"
  by (induction d) (auto simp: od_get_def od_del_def)

lemma od_del_commute: "od_del k (od_del k' d) = od_del k' (od_del k d)"
  by (induction d) (auto simp: od_del_def)

lemma od_del_absent: "od_get k d = None \<Longrightarrow> od_del k d = d"
  by (induction d) (auto simp: od_get_def od_del_def split: if_splits)

lemma od_get_filter_keys:
  "k \<notin> K \<Longrightarrow> od_get k (filter (\<lambda>kv. fst kv \<notin> K) d) = od_get k d"
  by (induction d) (auto simp: od_get_def)

lemma distinct_filter_keys: "distinct (map fst d) \<Longrightarrow> distinct (map fst (filter P d))"
  by (simp add: distinct_map_filter)

text \<open>What one argument takes out of a document is a set of keys.\<close>

lemma consume_doc_cases:
  "consume_doc lw a d = d \<or> (\<exists>k. consume_doc lw a d = od_del k d)"
  by (auto simp: consume_doc_def split: option.splits)

lemma consume_doc_filter: "\<exists>K. consume_doc lw a d = filter (\<lambda>kv. fst kv \<notin> K) d"
proof -
  from consume_doc_cases [of lw a d] show ?thesis
  proof
    assume "consume_doc lw a d = d"
    then have "consume_doc lw a d = filter (\<lambda>kv. fst kv \<notin> {}) d" by simp
    then show ?thesis by blast
  next
    assume "\<exists>k. consume_doc lw a d = od_del k d"
    then obtain k where "consume_doc lw a d = filter (\<lambda>kv. fst kv \<notin> {k}) d"
      by (auto simp: od_del_def)
    then show ?thesis by blast
  qed
qed

lemma residual_doc_filter: "\<exists>K. residual_doc lw schema d = filter (\<lambda>kv. fst kv \<notin> K) d"
proof (induction schema arbitrary: d)
  case Nil
  have "d = filter (\<lambda>kv. fst kv \<notin> {}) d" by simp
  then show ?case by (metis residual_doc.simps(1))
next
  case (Cons na schema)
  obtain K1 where K1: "consume_doc lw (snd na) d = filter (\<lambda>kv. fst kv \<notin> K1) d"
    using consume_doc_filter by blast
  obtain K2 where "residual_doc lw schema (consume_doc lw (snd na) d)
                   = filter (\<lambda>kv. fst kv \<notin> K2) (consume_doc lw (snd na) d)"
    using Cons by blast
  then have "residual_doc lw (na # schema) d = filter (\<lambda>kv. fst kv \<notin> K1 \<union> K2) d"
    using K1 by (simp add: conj_commute)
  then show ?case by blast
qed

lemma residual_doc_keys:
  "k \<in> set (map fst (residual_doc lw schema d)) \<Longrightarrow> k \<in> set (map fst d)"
  using residual_doc_filter [of lw schema d] by auto

text \<open>One step of the walk against the description.\<close>

lemma fill_namespace_consume:
  assumes "fill_namespace env a (ns, config, m) = Inr (ns', c', m')"
  shows "c' = consume (str_lower env) a config"
proof (cases a)
  case (Argument nm rq ty df ch na hp subs)
  show ?thesis
  proof (cases "subs = []")
    case True
    show ?thesis
    proof (cases config)
      case (VDict d)
      show ?thesis
      proof (cases "case_insensitive_name_match (str_lower env) (last (split_dot nm)) d")
        case None
        then show ?thesis
          using assms Argument True VDict
          by (auto simp: fill_leaf_def consume_def consume_doc_def local_name_def cinm_find
                   split: if_splits)
      next
        case (Some cm)
        then show ?thesis
          using assms Argument True VDict
          by (auto simp: fill_leaf_def consume_def consume_doc_def local_name_def cinm_find
                   split: option.splits sum.splits)
      qed
    qed (use assms Argument True in \<open>auto simp: fill_leaf_def consume_def\<close>)
  next
    case False
    show ?thesis
    proof (cases config)
      case (VDict d)
      then show ?thesis
        using assms Argument False
        by (auto simp: pop_default_def consume_def consume_doc_def local_name_def od_del_absent
                 split: option.splits sum.splits)
    qed (use assms Argument False in \<open>auto simp: pop_default_def split: sum.splits\<close>)
  qed
qed

lemma fill_subfields_residual:
  "fill_subfields env schema (ns, VDict d, m) = Inr (ns', c', m') \<Longrightarrow>
   c' = VDict (residual_doc (str_lower env) schema d)"
proof (induction schema arbitrary: ns d m)
  case Nil
  then show ?case by simp
next
  case (Cons na schema)
  obtain n a where na: "na = (n, a)" by (cases na)
  from Cons.prems na obtain ns1 c1 m1 where
    1: "fill_namespace env a (ns, VDict d, m) = Inr (ns1, c1, m1)" and
    2: "fill_subfields env schema (ns1, c1, m1) = Inr (ns', c', m')"
    by (auto split: sum.splits)
  have c1: "c1 = VDict (consume_doc (str_lower env) a d)"
    using fill_namespace_consume [OF 1] by (simp add: consume_def)
  show ?case using Cons.IH [OF 2 [unfolded c1]] na by simp
qed




lemma od_del_key: "k \<in> set (map fst (od_del k' d)) \<Longrightarrow> k \<noteq> k'"
  by (auto simp: od_del_def)

lemma consume_doc_od_del:
  assumes "k \<in> set (map fst (consume_doc lw a d))"
  shows "consume_doc lw a (od_del k d) = od_del k (consume_doc lw a d)"
proof (cases "subfields a = []")
  case True
  show ?thesis
  proof (cases "case_insensitive_name_match lw (local_name a) d")
    case None
    then have "case_insensitive_name_match lw (local_name a) (od_del k d) = None"
      by (simp add: cinm_od_del)
    then show ?thesis using None True by (simp add: consume_doc_def cinm_find [symmetric])
  next
    case (Some cm)
    then have "k \<noteq> cm"
      using assms True od_del_key [of k cm d] by (auto simp: consume_doc_def cinm_find [symmetric])
    then have "case_insensitive_name_match lw (local_name a) (od_del k d) = Some cm"
      using Some by (simp add: cinm_od_del)
    then show ?thesis
      using Some True by (simp add: consume_doc_def cinm_find [symmetric] od_del_commute)
  qed
next
  case False
  then show ?thesis by (simp add: consume_doc_def od_del_commute)
qed

lemma fill_namespace_del:
  assumes "k \<in> set (map fst (consume_doc (str_lower env) a d))"
  shows "fill_namespace env a (ns, VDict (od_del k d), m)
         = (case fill_namespace env a (ns, VDict d, m) of
              Inl e \<Rightarrow> Inl e
            | Inr (ns', c', m') \<Rightarrow> Inr (ns', without_key k c', m'))"
proof (cases a)
  case (Argument nm rq ty df ch na hp subs)
  let ?lw = "str_lower env"
  let ?n = "last (split_dot nm)"
  show ?thesis
  proof (cases "subs = []")
    case True
    show ?thesis
    proof (cases "case_insensitive_name_match ?lw ?n d")
      case None
      then have "case_insensitive_name_match ?lw ?n (od_del k d) = None"
        by (simp add: cinm_od_del)
      then show ?thesis
        using Argument True None by (simp add: fill_leaf_def without_key_def)
    next
      case (Some cm)
      then have ne: "k \<noteq> cm"
        using assms Argument True od_del_key [of k cm d]
        by (auto simp: consume_doc_def local_name_def cinm_find [symmetric])
      then have "case_insensitive_name_match ?lw ?n (od_del k d) = Some cm"
        using Some by (simp add: cinm_od_del)
      then show ?thesis
        using Argument True Some ne
        by (auto simp: fill_leaf_def without_key_def od_get_od_del od_del_commute
                 split: option.splits sum.splits)
    qed
  next
    case False
    have "?n \<noteq> k"
      using assms Argument False od_del_key [of k ?n d]
      by (auto simp: consume_doc_def local_name_def)
    then show ?thesis
      using Argument False
      by (auto simp: pop_default_def without_key_def od_get_od_del od_del_commute
               split: option.splits sum.splits)
  qed
qed

lemma fill_subfields_del:
  assumes "k \<in> set (map fst (residual_doc (str_lower env) schema d))"
  shows "fill_subfields env schema (ns, VDict (od_del k d), m)
         = (case fill_subfields env schema (ns, VDict d, m) of
              Inl e \<Rightarrow> Inl e
            | Inr (ns', c', m') \<Rightarrow> Inr (ns', without_key k c', m'))"
  using assms
proof (induction schema arbitrary: ns d m)
  case Nil
  then show ?case by (simp add: without_key_def)
next
  case (Cons na schema)
  obtain n a where na: "na = (n, a)" by (cases na)
  let ?d1 = "consume_doc (str_lower env) a d"
  have r: "k \<in> set (map fst (residual_doc (str_lower env) schema ?d1))"
    using Cons.prems na by simp
  then have k1: "k \<in> set (map fst ?d1)" by (rule residual_doc_keys)
  show ?case
  proof (cases "fill_namespace env a (ns, VDict d, m)")
    case (Inl e)
    then show ?thesis using na by (simp add: fill_namespace_del [OF k1])
  next
    case (Inr st)
    obtain ns1 c1 m1 where st: "st = (ns1, c1, m1)" by (cases st)
    have c1: "c1 = VDict ?d1"
      using fill_namespace_consume [OF Inr [unfolded st]] by (simp add: consume_def)
    show ?thesis
      using na Inr st c1 Cons.IH [OF r, of ns1 m1]
      by (simp add: fill_namespace_del [OF k1] without_key_def)
  qed
qed

lemma residual_doc_od_del:
  "k \<in> set (map fst (residual_doc lw schema d)) \<Longrightarrow>
   residual_doc lw schema (od_del k d) = od_del k (residual_doc lw schema d)"
proof (induction schema arbitrary: d)
  case Nil
  then show ?case by simp
next
  case (Cons na schema)
  have r: "k \<in> set (map fst (residual_doc lw schema (consume_doc lw (snd na) d)))"
    using Cons.prems by simp
  then have "k \<in> set (map fst (consume_doc lw (snd na) d))" by (rule residual_doc_keys)
  then show ?case using Cons.IH [OF r] by (simp add: consume_doc_od_del)
qed

text \<open>A key that is equal up to case to no entry survives the walk.\<close>

lemma consume_doc_keeps:
  "k \<in> set (map fst d) \<Longrightarrow> lw k \<noteq> lw (local_name a) \<Longrightarrow> k \<in> set (map fst (consume_doc lw a d))"
proof -
  assume k: "k \<in> set (map fst d)" and ne: "lw k \<noteq> lw (local_name a)"
  have del: "k \<in> set (map fst (od_del k' d))" if "k' \<noteq> k" for k'
    using k that by (auto simp: od_del_def)
  show ?thesis
  proof (cases "subfields a = []")
    case True
    show ?thesis
    proof (cases "case_insensitive_name_match lw (local_name a) d")
      case None
      then show ?thesis using True k by (simp add: consume_doc_def cinm_find [symmetric])
    next
      case (Some cm)
      then have "cm \<noteq> k" using cinm_Some [OF Some] ne by auto
      then show ?thesis using True Some del by (simp add: consume_doc_def cinm_find [symmetric])
    qed
  next
    case False
    have "local_name a \<noteq> k" using ne by auto
    then show ?thesis using False del by (simp add: consume_doc_def)
  qed
qed

lemma residual_doc_keeps:
  "k \<in> set (map fst d) \<Longrightarrow> \<forall>na \<in> set schema. lw k \<noteq> lw (local_name (snd na)) \<Longrightarrow>
   k \<in> set (map fst (residual_doc lw schema d))"
proof (induction schema arbitrary: d)
  case Nil
  then show ?case by simp
next
  case (Cons na schema)
  have "lw k \<noteq> lw (local_name (snd na))" using Cons.prems(2) by simp
  then have "k \<in> set (map fst (consume_doc lw (snd na) d))"
    using Cons.prems(1) by (rule consume_doc_keeps [rotated])
  then show ?case using Cons by simp
qed

section \<open>Properties of the configuration-file reader\<close>

lemma od_set_fresh: "k \<notin> fst ` set d \<Longrightarrow> od_set k v d = d @ [(k, v)]"
  by (induction d) auto

lemma store_unknown_acc:
  "distinct (map fst (acc @ d)) \<Longrightarrow>
   foldl (\<lambda>unknown kv. od_set (fst kv) (snd kv) unknown) acc d = acc @ d"
proof (induction d arbitrary: acc)
  case Nil
  then show ?case by simp
next
  case (Cons kv d)
  have "fst kv \<notin> fst ` set acc" using Cons.prems by auto
  then have "od_set (fst kv) (snd kv) acc = acc @ [kv]" by (simp add: od_set_fresh)
  then show ?case using Cons.IH [of "acc @ [kv]"] Cons.prems by simp
qed

lemma store_unknown_id: "distinct (map fst d) \<Longrightarrow> store_unknown d = d"
  using store_unknown_acc [of "[]" d] by (simp add: store_unknown_def)

lemma load_plugins_shape: "load_plugins env config = Inr c1 \<Longrightarrow> c1 = od_del ''X'' config"
  by (auto simp: load_plugins_def od_del_absent split: option.splits sum.splits)

lemma load_cosmo_shape: "load_cosmo env c1 = Inr c2 \<Longrightarrow> c2 = od_del ''cosmo'' c1"
  by (auto simp: load_cosmo_def od_del_absent split: option.splits)

lemma load_plugins_del:
  "k \<noteq> ''X'' \<Longrightarrow>
   load_plugins env (od_del k config)
     = (case load_plugins env config of Inl e \<Rightarrow> Inl e | Inr c \<Rightarrow> Inr (od_del k c))"
  by (auto simp: load_plugins_def od_get_od_del od_del_commute split: option.splits sum.splits)

lemma load_cosmo_del:
  "k \<noteq> ''cosmo'' \<Longrightarrow>
   load_cosmo env (od_del k config)
     = (case load_cosmo env config of Inl e \<Rightarrow> Inl e | Inr c \<Rightarrow> Inr (od_del k c))"
  by (auto simp: load_cosmo_def od_get_od_del od_del_commute split: option.splits)

text \<open>The outcome of \<open>read_mapping\<close> in terms of the walk.\<close>

lemma read_mapping_walk:
  assumes "load_plugins env config = Inr c1" and "load_cosmo env c1 = Inr c2"
    and "distinct (map fst config)"
  shows "read_mapping env config schema
         = (case fill_subfields env schema ([], VDict c2, []) of
              Inl e \<Rightarrow> Inl e
            | Inr (ns, extra, missing) \<Rightarrow>
                (if missing \<noteq> []
                 then Inl (Exn ValueError (''missing required arguments: '' @ repr_str_list missing))
                 else Inr (ns, residual_doc (str_lower env) schema c2)))"
proof (cases "fill_subfields env schema ([], VDict c2, [])")
  case (Inl e)
  then show ?thesis using assms by (simp add: read_mapping_def)
next
  case (Inr st)
  obtain ns extra missing where st: "st = (ns, extra, missing)" by (cases st)
  have e: "extra = VDict (residual_doc (str_lower env) schema c2)"
    using fill_subfields_residual [OF Inr [unfolded st]] .
  obtain K where K: "residual_doc (str_lower env) schema c2 = filter (\<lambda>kv. fst kv \<notin> K) c2"
    using residual_doc_filter by blast
  have "distinct (map fst c2)"
    using assms load_plugins_shape [OF assms(1)] load_cosmo_shape [OF assms(2)]
    by (simp add: od_del_def distinct_filter_keys)
  then have "store_unknown (residual_doc (str_lower env) schema c2)
             = residual_doc (str_lower env) schema c2"
    unfolding K by (simp add: store_unknown_id distinct_filter_keys)
  then show ?thesis using assms Inr st e by (simp add: read_mapping_def)
qed


text \<open>
  Claim C9. When the read of a mapping document succeeds, the unknown output is what the
  walk leaves of the document once the reserved keys \<open>X\<close> and \<open>cosmo\<close> are gone: every
  entry of the schema takes out the key it consumes (a leaf the first key equal to its
  local name up to case, a container the key that is its local name) and nothing else, and
  what stays keeps its name, its value and its place. For a key \<open>k\<close> that stays, the read of
  the document fails exactly when the read of the document without \<open>k\<close> fails, with the
  same error, and otherwise gives the same namespace. A key of the document that is not
  reserved and is equal up to case to no top-level local name is such a key.
\<close>

theorem unknown_passthrough:
  assumes "distinct (map fst config)"
  shows "(ReadConfigFile env (LoadMap config) schema = Inr (ns, unknown) \<longrightarrow>
            unknown = residual_doc (str_lower env) schema (od_del ''cosmo'' (od_del ''X'' config)))
       \<and> (\<exists>K. residual_doc (str_lower env) schema (od_del ''cosmo'' (od_del ''X'' config))
                = filter (\<lambda>kv. fst kv \<notin> K) config)
       \<and> (k \<in> set (map fst (residual_doc (str_lower env) schema
                                 (od_del ''cosmo'' (od_del ''X'' config)))) \<longrightarrow>
            (ReadConfigFile env (LoadMap config) schema = Inr (ns, unknown) \<longrightarrow>
               od_get k unknown = od_get k config)
          \<and> ReadConfigFile env (LoadMap (od_del k config)) schema
              = (case ReadConfigFile env (LoadMap config) schema of
                   Inl e \<Rightarrow> Inl e
                 | Inr (ns', u) \<Rightarrow> Inr (ns', od_del k u)))
       \<and> (k \<in> set (map fst config) \<and> k \<noteq> ''X'' \<and> k \<noteq> ''cosmo''
            \<and> (\<forall>na \<in> set schema. str_lower env k \<noteq> str_lower env (local_name (snd na))) \<longrightarrow>
            k \<in> set (map fst (residual_doc (str_lower env) schema
                                 (od_del ''cosmo'' (od_del ''X'' config)))))"
proof -
  let ?lw = "str_lower env"
  let ?c2 = "od_del ''cosmo'' (od_del ''X'' config)"
  let ?res = "residual_doc ?lw schema ?c2"
  have exact: "unknown = ?res"
    if ok: "ReadConfigFile env (LoadMap config) schema = Inr (ns, unknown)" for ns unknown
  proof -
    from ok obtain c1 where c1: "load_plugins env config = Inr c1"
      by (auto simp: ReadConfigFile_def read_mapping_def split: sum.splits)
    from ok c1 obtain c2 where c2: "load_cosmo env c1 = Inr c2"
      by (auto simp: ReadConfigFile_def read_mapping_def split: sum.splits)
    have "c2 = ?c2" using load_plugins_shape [OF c1] load_cosmo_shape [OF c2] by simp
    then show ?thesis
      using ok read_mapping_walk [OF c1 c2 assms, of schema]
      by (auto simp: ReadConfigFile_def split: sum.splits if_splits)
  qed
  obtain K2 where K2: "?res = filter (\<lambda>kv. fst kv \<notin> K2) ?c2"
    using residual_doc_filter by blast
  have "?c2 = filter (\<lambda>kv. fst kv \<notin> {''X'', ''cosmo''}) config"
    by (simp add: od_del_def conj_commute)
  then have K: "?res = filter (\<lambda>kv. fst kv \<notin> {''X'', ''cosmo''} \<union> K2) config"
    using K2 by (simp add: conj_commute conj_left_commute)
  then have shape: "\<exists>K. ?res = filter (\<lambda>kv. fst kv \<notin> K) config" by blast
  have verb: "od_get k unknown = od_get k config"
    if k: "k \<in> set (map fst ?res)"
      and ok: "ReadConfigFile env (LoadMap config) schema = Inr (ns, unknown)"
  proof -
    have nk: "k \<notin> {''X'', ''cosmo''} \<union> K2" using k K by auto
    have "unknown = filter (\<lambda>kv. fst kv \<notin> {''X'', ''cosmo''} \<union> K2) config"
      using exact [OF ok] K by (simp only:)
    then show ?thesis using od_get_filter_keys [OF nk, of config] by (simp only:)
  qed
  have del: "ReadConfigFile env (LoadMap (od_del k config)) schema
              = (case ReadConfigFile env (LoadMap config) schema of
                   Inl e \<Rightarrow> Inl e
                 | Inr (ns', u) \<Rightarrow> Inr (ns', od_del k u))"
    if k: "k \<in> set (map fst ?res)"
  proof -
    have kc: "k \<in> set (map fst ?c2)" using k by (rule residual_doc_keys)
    then have kx: "k \<noteq> ''X''" "k \<noteq> ''cosmo''" by (auto simp: od_del_def)
    show ?thesis
    proof (cases "load_plugins env config")
      case (Inl e)
      then show ?thesis
        using kx by (simp add: ReadConfigFile_def read_mapping_def load_plugins_del)
    next
      case c1: (Inr c1)
      show ?thesis
      proof (cases "load_cosmo env c1")
        case (Inl e)
        then show ?thesis
          using kx c1 by (simp add: ReadConfigFile_def read_mapping_def load_plugins_del load_cosmo_del)
      next
        case c2: (Inr c2)
        have c2eq: "c2 = ?c2" using load_plugins_shape [OF c1] load_cosmo_shape [OF c2] by simp
        have d: "distinct (map fst (od_del k config))"
          using assms by (simp add: od_del_def distinct_filter_keys)
        have c1': "load_plugins env (od_del k config) = Inr (od_del k c1)"
          using kx c1 by (simp add: load_plugins_del)
        have c2': "load_cosmo env (od_del k c1) = Inr (od_del k c2)"
          using kx c2 by (simp add: load_cosmo_del)
        have kr: "k \<in> set (map fst (residual_doc ?lw schema c2))" using k c2eq by simp
        have r: "residual_doc ?lw schema (od_del k c2) = od_del k (residual_doc ?lw schema c2)"
          using residual_doc_od_del [OF kr] .
        show ?thesis
        proof (cases "fill_subfields env schema ([], VDict c2, [])")
          case (Inl e)
          then show ?thesis
            using read_mapping_walk [OF c1 c2 assms, of schema]
              read_mapping_walk [OF c1' c2' d, of schema]
            by (simp add: ReadConfigFile_def fill_subfields_del [OF kr])
        next
          case (Inr st)
          obtain ns1 extra missing where st: "st = (ns1, extra, missing)" by (cases st)
          show ?thesis
            using read_mapping_walk [OF c1 c2 assms, of schema]
              read_mapping_walk [OF c1' c2' d, of schema] Inr st r
            by (simp add: ReadConfigFile_def fill_subfields_del [OF kr])
        qed
      qed
    qed
  qed
  have keeps: "k \<in> set (map fst ?res)"
    if "k \<in> set (map fst config)" "k \<noteq> ''X''" "k \<noteq> ''cosmo''"
       "\<forall>na \<in> set schema. ?lw k \<noteq> ?lw (local_name (snd na))"
  proof -
    have "k \<in> set (map fst ?c2)" using that(1,2,3) by (auto simp: od_del_def)
    then show ?thesis using that(4) by (rule residual_doc_keeps)
  qed
  show ?thesis using exact shape verb del keeps by blast
qed

theorem unknown_passthrough_witness:
  "ReadConfigFile plain_env (LoadMap [(''NMESH'', VInt 1), (''nmesh'', VInt 2), (''zzz'', VInt 3)])
     [(''Nmesh'', plain_leaf ''Nmesh'' True)]
   = Inr ([(''Nmesh'', VInt 1)], [(''nmesh'', VInt 2), (''zzz'', VInt 3)])
   \<and> ReadConfigFile plain_env
        (LoadMap (od_del ''nmesh'' [(''NMESH'', VInt 1), (''nmesh'', VInt 2), (''zzz'', VInt 3)]))
        [(''Nmesh'', plain_leaf ''Nmesh'' True)]
   = Inr ([(''Nmesh'', VInt 1)], od_del ''nmesh'' [(''nmesh'', VInt 2), (''zzz'', VInt 3)])
   \<and> ''zzz'' \<in> set (map fst (residual_doc ascii_lower [(''Nmesh'', plain_leaf ''Nmesh'' True)]
        (od_del ''cosmo'' (od_del ''X'' [(''NMESH'', VInt 1), (''nmesh'', VInt 2), (''zzz'', VInt 3)]))))"
proof -
  let ?config = "[(''NMESH'', VInt 1), (''nmesh'', VInt 2), (''zzz'', VInt 3)]"
  let ?schema = "[(''Nmesh'', plain_leaf ''Nmesh'' True)]"
  have d: "distinct (map fst ?config)" by simp
  have r: "ReadConfigFile plain_env (LoadMap ?config) ?schema
           = Inr ([(''Nmesh'', VInt 1)], [(''nmesh'', VInt 2), (''zzz'', VInt 3)])"
    by code_simp
  have l: "str_lower plain_env = ascii_lower" by (simp add: plain_env_def)
  have res: "residual_doc ascii_lower ?schema (od_del ''cosmo'' (od_del ''X'' ?config))
             = [(''nmesh'', VInt 2), (''zzz'', VInt 3)]"
    by code_simp
  have z: "''zzz'' \<in> set (map fst ?config) \<and> ''zzz'' \<noteq> ''X'' \<and> ''zzz'' \<noteq> ''cosmo''
           \<and> (\<forall>na \<in> set ?schema. ascii_lower ''zzz'' \<noteq> ascii_lower (local_name (snd na)))"
    by code_simp
  show ?thesis
    using unknown_passthrough [OF d, of plain_env ?schema "[(''Nmesh'', VInt 1)]"
            "[(''nmesh'', VInt 2), (''zzz'', VInt 3)]" "''nmesh''"]
      unknown_passthrough [OF d, of plain_env ?schema "[(''Nmesh'', VInt 1)]"
            "[(''nmesh'', VInt 2), (''zzz'', VInt 3)]" "''zzz''"]
      r l res z
    by simp
qed




section \<open>Properties of the declarations\<close>

lemma od_get_od_set: "od_get k (od_set k' v d) = (if k = k' then Some v else od_get k d)"
  by (induction d) (auto simp: od_get_def)

lemma od_set_not_Nil: "od_set k v d \<noteq> []"
  by (cases d) (auto split: if_splits)

lemma od_mem_get: "od_mem k d \<longleftrightarrow> od_get k d \<noteq> None"
  by (simp add: od_mem_def od_get_def map_of_eq_None_iff)

lemma lookup_path_Cons:
  "ks \<noteq> [] \<Longrightarrow> lookup_path obj (k # ks)
     = (case od_get k obj of None \<Rightarrow> None | Some a \<Rightarrow> lookup_path (subfields a) ks)"
  by (cases ks) (auto split: option.splits)

lemma lookup_path_Nil: "lookup_path [] p = None"
  by (induction "[] :: (string \<times> argument) list" p rule: lookup_path.induct)
     (simp_all add: od_get_def)

lemma set_subfields_simps:
  "set_subfields (set_subfields a s) t = set_subfields a t"
  "set_subfields (new_Argument n r) [] = new_Argument n r"
  "subfields (set_subfields a s) = s"
  "subfields (new_Argument n r) = []"
  by (simp_all add: set_subfields_def new_Argument_def)

lemma create_parents_placeholder:
  assumes "i < length ks" and "lookup_path obj (take (Suc i) ks) = None"
  shows "\<exists>a. lookup_path (create_parents dn ks req obj) (take (Suc i) ks) = Some a
           \<and> set_subfields a [] = new_Argument (join_dot (dn @ take (Suc i) ks)) req"
  using assms
proof (induction ks arbitrary: dn obj i)
  case Nil
  then show ?case by simp
next
  case (Cons k ks)
  let ?obj1 = "if \<not> od_mem k obj then od_set k (new_Argument (join_dot (dn @ [k])) req) obj else obj"
  obtain a0 where a0: "od_get k ?obj1 = Some a0"
    by (cases "od_get k obj") (auto simp: od_get_od_set od_mem_get)
  let ?sub = "create_parents (dn @ [k]) ks req (subfields a0)"
  have res: "create_parents dn (k # ks) req obj = od_set k (set_subfields a0 ?sub) ?obj1"
    using a0 by (simp add: Let_def)
  show ?case
  proof (cases i)
    case 0
    then have "od_get k obj = None" using Cons.prems by simp
    then have "a0 = new_Argument (join_dot (dn @ [k])) req"
      using a0 by (simp add: od_mem_get od_get_od_set)
    then show ?thesis
      using 0 res by (simp add: od_get_od_set set_subfields_simps)
  next
    case (Suc j)
    then have j: "j < length ks" using Cons.prems by simp
    then have ne: "take (Suc j) ks \<noteq> []" by (cases ks) auto
    have none: "lookup_path (subfields a0) (take (Suc j) ks) = None"
    proof (cases "od_get k obj")
      case None
      then have "a0 = new_Argument (join_dot (dn @ [k])) req"
        using a0 by (simp add: od_mem_get od_get_od_set)
      then show ?thesis by (simp add: set_subfields_simps lookup_path_Nil)
    next
      case (Some b)
      then have "a0 = b" using a0 by (simp add: od_mem_get)
      then show ?thesis
        using Cons.prems(2) Suc Some ne by (simp add: lookup_path_Cons)
    qed
    from Cons.IH [OF j none, of "dn @ [k]"] obtain a where
      "lookup_path ?sub (take (Suc j) ks) = Some a"
      "set_subfields a [] = new_Argument (join_dot ((dn @ [k]) @ take (Suc j) ks)) req"
      by blast
    then show ?thesis
      using Suc res ne by (simp add: lookup_path_Cons od_get_od_set set_subfields_simps)
  qed
qed

lemma update_at_path:
  assumes "update_at ks f obj = Inr obj'" and "\<And>ob r. f ob = Inr r \<Longrightarrow> r \<noteq> []"
    and "i < length ks" and "lookup_path obj (take (Suc i) ks) = Some a"
  shows "\<exists>a'. lookup_path obj' (take (Suc i) ks) = Some a'
           \<and> set_subfields a' [] = set_subfields a [] \<and> subfields a' \<noteq> []"
  using assms
proof (induction ks arbitrary: obj obj' i)
  case Nil
  then show ?case by simp
next
  case (Cons k ks)
  from Cons.prems(1) obtain b s where
    b: "od_get k obj = Some b" and s: "update_at ks f (subfields b) = Inr s"
    and obj': "obj' = od_set k (set_subfields b s) obj"
    by (auto split: option.splits sum.splits)
  have s_ne: "s \<noteq> []"
  proof (cases ks)
    case Nil
    then show ?thesis using s Cons.prems(2) by simp
  next
    case (Cons k' ks')
    then show ?thesis using s by (auto simp: od_set_not_Nil split: option.splits sum.splits)
  qed
  show ?case
  proof (cases i)
    case 0
    then have "a = b" using Cons.prems(4) b by simp
    then show ?thesis
      using 0 obj' s_ne by (simp add: od_get_od_set set_subfields_simps)
  next
    case (Suc j)
    then have j: "j < length ks" using Cons.prems by simp
    then have ne: "take (Suc j) ks \<noteq> []" by (cases ks) auto
    have "lookup_path (subfields b) (take (Suc j) ks) = Some a"
      using Cons.prems(4) Suc b ne by (simp add: lookup_path_Cons)
    from Cons.IH [OF s Cons.prems(2) j this]
    show ?thesis
      using Suc obj' ne by (simp add: lookup_path_Cons od_get_od_set set_subfields_simps)
  qed
qed

lemma leaf_action_not_Nil:
  "(if \<not> c then insert_new name suffix dc else replace_old suffix dc) obj = Inr r \<Longrightarrow> r \<noteq> []"
  by (auto simp: insert_new_def replace_old_def od_set_not_Nil split: if_splits option.splits)

text \<open>
  Claim C6, as amended. Every intermediate container that \<open>add_argument\<close> creates along
  the dotted path (one whose path did not resolve before the call) is the placeholder
  \<open>Argument(path, required)\<close> with the required flag given for the leaf, up to its
  subfields; and when the call returns normally it is not a leaf.
\<close>

theorem add_argument_placeholders:
  assumes "i < length (butlast (split_dot name))"
    and "lookup_path self (take (Suc i) (butlast (split_dot name))) = None"
  shows "\<exists>a. lookup_path (snd (add_argument name dc self)) (take (Suc i) (butlast (split_dot name))) = Some a
           \<and> set_subfields a [] = new_Argument (join_dot (take (Suc i) (butlast (split_dot name)))) (d_required dc)
           \<and> arg_required a = d_required dc
           \<and> (fst (add_argument name dc self) = None \<longrightarrow> subfields a \<noteq> [])"
proof -
  let ?prefix = "butlast (split_dot name)"
  let ?self1 = "create_parents [] ?prefix (d_required dc) self"
  from create_parents_placeholder [OF assms, of "[]" "d_required dc"] obtain a where
    a: "lookup_path ?self1 (take (Suc i) ?prefix) = Some a"
       "set_subfields a [] = new_Argument (join_dot (take (Suc i) ?prefix)) (d_required dc)"
    by auto
  have req: "arg_required b = d_required dc"
    if "set_subfields b [] = new_Argument (join_dot (take (Suc i) ?prefix)) (d_required dc)" for b
    using that by (cases b) (simp add: set_subfields_def new_Argument_def)
  show ?thesis
  proof (cases "contains ?self1 name")
    case (Inl e)
    then show ?thesis using a req [OF a(2)] by (simp add: add_argument_def Let_def)
  next
    case (Inr c)
    let ?f = "if \<not> c then insert_new name (last (split_dot name)) dc
              else replace_old (last (split_dot name)) dc"
    show ?thesis
    proof (cases "update_at ?prefix ?f ?self1")
      case (Inl e)
      then show ?thesis using Inr a req [OF a(2)] by (simp add: add_argument_def Let_def)
    next
      case self2: (Inr self2)
      have "\<exists>a'. lookup_path self2 (take (Suc i) ?prefix) = Some a'
              \<and> set_subfields a' [] = set_subfields a [] \<and> subfields a' \<noteq> []"
        by (rule update_at_path [OF self2 _ assms(1) a(1)]) (rule leaf_action_not_Nil)
      then obtain a' where
        a': "lookup_path self2 (take (Suc i) ?prefix) = Some a'"
            "set_subfields a' [] = set_subfields a []" "subfields a' \<noteq> []"
        by blast
      then show ?thesis
        using Inr self2 a(2) req [of a'] by (simp add: add_argument_def Let_def)
    qed
  qed
qed

lemma split_a_b: "split_dot ''a.b'' = [''a'', ''b'']"
  by simp

theorem add_argument_placeholders_witness:
  "\<exists>a. lookup_path (snd (add_argument ''a.b'' decl_required [])) [''a''] = Some a
        \<and> arg_required a = True \<and> subfields a \<noteq> []"
proof -
  have 1: "0 < length (butlast (split_dot ''a.b''))" by simp
  have 2: "lookup_path [] (take (Suc 0) (butlast (split_dot ''a.b''))) = None"
    by (simp add: od_get_def)
  have 3: "fst (add_argument ''a.b'' decl_required []) = None"
    by (simp add: add_argument_def Let_def contains_def od_get_def od_mem_def insert_new_def
                  new_Argument_def set_subfields_def)
  show ?thesis
    using add_argument_placeholders [OF 1 2, of decl_required] 3
    by (auto simp: decl_required_def)
qed

text \<open>
  Claim C6 as stated fails: declaring \<open>a.b\<close> as required on an empty schema creates the
  container \<open>a\<close> with its required flag set.
\<close>

theorem add_argument_placeholder_counterexample:
  "map_option arg_required (lookup_path (snd (add_argument ''a.b'' decl_required [])) [''a''])
     = Some True"
  by (simp add: add_argument_def Let_def contains_def od_get_def od_mem_def insert_new_def
                new_Argument_def set_subfields_def decl_required_def)

text \<open>
  Claim C7, at an input where the code departs from it. Declaring \<open>a.b.c\<close> on an empty
  schema creates the parents \<open>a\<close> and \<open>a.b\<close> and then raises \<open>KeyError\<close> in
  \<open>contains\<close>, which looks the second segment up in the schema itself: the argument is
  never stored and the path \<open>a.b.c\<close> does not resolve.
\<close>

theorem add_argument_three_levels_raises:
  "add_argument ''a.b.c'' decl_required []
     = (Some (Exn KeyError ''b''),
        [(''a'', Argument ''a'' True (TOne None) VNone None NNone (Some [])
                   [(''b'', Argument ''a.b'' True (TOne None) VNone None NNone (Some []) [])])])
   \<and> lookup_path (snd (add_argument ''a.b.c'' decl_required [])) [''a'', ''b'', ''c''] = None"
  by (simp add: add_argument_def Let_def contains_def od_get_def od_mem_def insert_new_def
                new_Argument_def set_subfields_def decl_required_def)

section \<open>Properties of the reconciliation\<close>

lemma arg_name_infer_entry: "arg_name (infer_entry atts dfs a) = arg_name a"
  by (simp add: infer_entry_def)

lemma infer_entry_idem: "infer_entry atts dfs (infer_entry atts dfs a) = infer_entry atts dfs a"
  by (simp add: infer_entry_def)

lemma od_set_as_map:
  "distinct (map fst s) \<Longrightarrow> od_get k s = Some a \<Longrightarrow>
   od_set k (f a) s = map (\<lambda>kb. (fst kb, if fst kb = k then f (snd kb) else snd kb)) s"
proof (induction s)
  case Nil
  then show ?case by (simp add: od_get_def)
next
  case (Cons x s)
  show ?case
  proof (cases "fst x = k")
    case True
    then have "k \<notin> fst ` set s" using Cons.prems(1) by simp
    then have "\<forall>kb \<in> set s. fst kb \<noteq> k" by (metis imageI)
    then have "map (\<lambda>kb. (fst kb, if fst kb = k then f (snd kb) else snd kb)) s = s"
      by (induction s) auto
    then show ?thesis using True Cons.prems(2) by (cases x) (simp add: od_get_def)
  next
    case False
    then show ?thesis using Cons by (cases x) (simp add: od_get_def)
  qed
qed

lemma od_get_None_keys: "od_get k s = None \<Longrightarrow> \<forall>kb \<in> set s. fst kb \<noteq> k"
  by (auto simp: od_get_def map_of_eq_None_iff)

lemma update_loop_schema:
  "distinct (map fst s) \<Longrightarrow>
   fst (update_loop atts dfs alw ks (s, e, m))
     = map (\<lambda>kb. (fst kb, if fst kb \<in> set ks then infer_entry atts dfs (snd kb) else snd kb)) s"
proof (induction ks arbitrary: s e m)
  case Nil
  then show ?case by simp
next
  case (Cons name names)
  show ?case
  proof (cases "od_get name s")
    case None
    then have "\<forall>kb \<in> set s. fst kb \<noteq> name" by (rule od_get_None_keys)
    then have "map (\<lambda>kb. (fst kb, if fst kb \<in> set (name # names) then infer_entry atts dfs (snd kb) else snd kb)) s
             = map (\<lambda>kb. (fst kb, if fst kb \<in> set names then infer_entry atts dfs (snd kb) else snd kb)) s"
      by (intro map_cong) auto
    then show ?thesis using None Cons by simp
  next
    case (Some a)
    let ?s' = "od_set name (infer_entry atts dfs a) s"
    have s': "?s' = map (\<lambda>kb. (fst kb, if fst kb = name then infer_entry atts dfs (snd kb) else snd kb)) s"
      using od_set_as_map [OF Cons.prems Some, of "infer_entry atts dfs"] .
    then have d: "distinct (map fst ?s')" using Cons.prems by (simp add: comp_def)
    have "fst (update_loop atts dfs alw (name # names) (s, e, m))
          = map (\<lambda>kb. (fst kb, if fst kb \<in> set names then infer_entry atts dfs (snd kb) else snd kb)) ?s'"
      using Some Cons.IH [OF d] by simp
    also have "\<dots> = map (\<lambda>kb. (fst kb, if fst kb \<in> set (name # names) then infer_entry atts dfs (snd kb) else snd kb)) s"
      unfolding s' by (auto simp: infer_entry_idem)
    finally show ?thesis .
  qed
qed

lemma update_loop_schema_all:
  "distinct (map fst s) \<Longrightarrow>
   fst (update_loop atts dfs alw (map fst s) (s, e, m))
     = map (\<lambda>kb. (fst kb, infer_entry atts dfs (snd kb))) s"
  by (simp add: update_loop_schema)

text \<open>The lists \<open>extra\<close> and \<open>missing\<close> depend on the names of the entries only.\<close>

lemma names_od_get:
  "map (\<lambda>kb. (fst kb, arg_name (snd kb))) s = map (\<lambda>kb. (fst kb, arg_name (snd kb))) s' \<Longrightarrow>
   map_option arg_name (od_get k s) = map_option arg_name (od_get k s')"
proof (induction s arbitrary: s')
  case Nil
  then show ?case by (simp add: od_get_def)
next
  case (Cons x s)
  then obtain y t where s': "s' = y # t" by (cases s') auto
  then show ?case using Cons by (cases x; cases y) (auto simp: od_get_def)
qed

lemma names_od_set:
  "od_get k s = Some a \<Longrightarrow> arg_name v = arg_name a \<Longrightarrow>
   map (\<lambda>kb. (fst kb, arg_name (snd kb))) (od_set k v s) = map (\<lambda>kb. (fst kb, arg_name (snd kb))) s"
  by (induction s) (auto simp: od_get_def split: if_splits)

lemma update_loop_lists:
  "map (\<lambda>kb. (fst kb, arg_name (snd kb))) s = map (\<lambda>kb. (fst kb, arg_name (snd kb))) s' \<Longrightarrow>
   snd (update_loop atts dfs alw ks (s, e, m)) = snd (update_loop atts dfs alw ks (s', e, m))"
proof (induction ks arbitrary: s s' e m)
  case Nil
  then show ?case by simp
next
  case (Cons name names)
  show ?case
  proof (cases "od_get name s")
    case None
    then have "od_get name s' = None" using names_od_get [OF Cons.prems, of name] by simp
    then show ?thesis using None Cons.IH [OF Cons.prems] by simp
  next
    case (Some a)
    then obtain a' where a': "od_get name s' = Some a'" "arg_name a' = arg_name a"
      using names_od_get [OF Cons.prems, of name] by (cases "od_get name s'") auto
    have "map (\<lambda>kb. (fst kb, arg_name (snd kb))) (od_set name (infer_entry atts dfs a) s)
        = map (\<lambda>kb. (fst kb, arg_name (snd kb))) (od_set name (infer_entry atts dfs a') s')"
      using names_od_set [OF Some, of "infer_entry atts dfs a"]
        names_od_set [OF a'(1), of "infer_entry atts dfs a'"] Cons.prems
      by (simp add: arg_name_infer_entry)
    from Cons.IH [OF this] show ?thesis using Some a' by simp
  qed
qed


text \<open>The rebuilt schema.\<close>

lemma od_set_keys: "set (map fst (od_set k v d)) = insert k (set (map fst d))"
proof (induction d)
  case Nil
  then show ?case by simp
next
  case (Cons x d)
  then show ?case by (cases x) (simp add: insert_commute)
qed

lemma od_set_keys_distinct: "distinct (map fst d) \<Longrightarrow> distinct (map fst (od_set k v d))"
proof (induction d)
  case Nil
  then show ?case by simp
next
  case (Cons x d)
  show ?case
  proof (cases "fst x = k")
    case True
    then show ?thesis using Cons.prems by (cases x) simp
  next
    case False
    then show ?thesis using Cons od_set_keys [of k v d] by (cases x) simp
  qed
qed

lemma reorder_fold_get:
  "od_get k (foldl (\<lambda>new k. case od_get k t of None \<Rightarrow> new | Some a \<Rightarrow> od_set k a new) acc ks)
     = (if k \<in> set ks \<and> od_get k t \<noteq> None then od_get k t else od_get k acc)"
proof (induction ks arbitrary: acc)
  case Nil
  then show ?case by simp
next
  case (Cons x ks)
  show ?case
    by (cases "od_get x t") (auto simp: Cons od_get_od_set)
qed

lemma reorder_fold_distinct:
  "distinct (map fst acc) \<Longrightarrow>
   distinct (map fst (foldl (\<lambda>new k. case od_get k t of None \<Rightarrow> new | Some a \<Rightarrow> od_set k a new) acc ks))"
proof (induction ks arbitrary: acc)
  case Nil
  then show ?case by simp
next
  case (Cons x ks)
  then show ?case
    by (cases "od_get x t") (simp_all add: od_set_keys_distinct)
qed

lemma reorder_fold_cong:
  "\<forall>k \<in> set ks. od_get k t = od_get k t' \<Longrightarrow>
   foldl (\<lambda>new k. case od_get k t of None \<Rightarrow> new | Some a \<Rightarrow> od_set k a new) acc ks
   = foldl (\<lambda>new k. case od_get k t' of None \<Rightarrow> new | Some a \<Rightarrow> od_set k a new) acc ks"
  by (induction ks arbitrary: acc) simp_all

lemma od_get_reorder:
  "od_get k (reorder args alw t) = (if k \<in> set (args @ alw) then od_get k t else None)"
  unfolding reorder_def reorder_fold_get by (simp add: od_get_def)

lemma distinct_reorder: "distinct (map fst (reorder args alw t))"
  unfolding reorder_def by (rule reorder_fold_distinct) simp

lemma reorder_cong:
  "\<forall>k \<in> set (args @ alw). od_get k t = od_get k t' \<Longrightarrow> reorder args alw t = reorder args alw t'"
  unfolding reorder_def by (rule reorder_fold_cong)

lemma reorder_idem: "reorder args alw (reorder args alw t) = reorder args alw t"
  by (rule reorder_cong) (simp add: od_get_reorder)

lemma reorder_entries: "kb \<in> set (reorder args alw t) \<Longrightarrow> kb \<in> set t"
proof -
  assume a: "kb \<in> set (reorder args alw t)"
  obtain k b where kb: "kb = (k, b)" by (cases kb)
  have "od_get k (reorder args alw t) = Some b"
    using a kb distinct_reorder [of args alw t] by (simp add: od_get_def)
  then have "od_get k t = Some b"
    by (simp add: od_get_reorder split: if_splits)
  then show ?thesis using kb by (simp add: od_get_def map_of_SomeD)
qed

lemma map_infer_fixed:
  "\<forall>kb \<in> set s. infer_entry atts dfs (snd kb) = snd kb \<Longrightarrow>
   map (\<lambda>kb. (fst kb, infer_entry atts dfs (snd kb))) s = s"
  by (induction s) auto

text \<open>One run of \<open>update_schema\<close>, by cases.\<close>

lemma update_schema_cases:
  assumes "distinct (map fst s)"
  shows "snd (update_schema atts dfs alw s) = map (\<lambda>kb. (fst kb, infer_entry atts dfs (snd kb))) s
           \<and> (fst (update_schema atts dfs alw s) \<noteq> None
                \<or> filter (\<lambda>k. k \<in> set (sig_args atts)) (map fst s) = sig_args atts)
         \<or> snd (update_schema atts dfs alw s)
              = reorder (sig_args atts) alw (map (\<lambda>kb. (fst kb, infer_entry atts dfs (snd kb))) s)
           \<and> fst (update_schema atts dfs alw s) = None
           \<and> filter (\<lambda>k. k \<in> set (sig_args atts)) (map fst s) \<noteq> sig_args atts"
proof -
  obtain sch ex mi where l: "update_loop atts dfs alw (map fst s)
      (s, [], sig_default_names atts dfs @ sig_required atts dfs) = (sch, ex, mi)"
    by (cases "update_loop atts dfs alw (map fst s)
      (s, [], sig_default_names atts dfs @ sig_required atts dfs)") auto
  have sch: "sch = map (\<lambda>kb. (fst kb, infer_entry atts dfs (snd kb))) s"
    using update_loop_schema_all [OF assms, of atts dfs alw "[]"
        "sig_default_names atts dfs @ sig_required atts dfs"] l by simp
  have keys: "map fst sch = map fst s" by (simp add: sch comp_def)
  show ?thesis
    using l keys sch [symmetric] by (auto simp: update_schema_def Let_def)
qed

lemma update_schema_error_again:
  assumes "distinct (map fst s)" and "fst (update_schema atts dfs alw s) \<noteq> None"
  shows "fst (update_schema atts dfs alw (map (\<lambda>kb. (fst kb, infer_entry atts dfs (snd kb))) s)) \<noteq> None"
proof -
  let ?t = "map (\<lambda>kb. (fst kb, infer_entry atts dfs (snd kb))) s"
  let ?m0 = "sig_default_names atts dfs @ sig_required atts dfs"
  have n: "map (\<lambda>kb. (fst kb, arg_name (snd kb))) ?t = map (\<lambda>kb. (fst kb, arg_name (snd kb))) s"
    by (simp add: comp_def arg_name_infer_entry)
  have k: "map fst ?t = map fst s" by (simp add: comp_def)
  have "snd (update_loop atts dfs alw (map fst ?t) (?t, [], ?m0))
        = snd (update_loop atts dfs alw (map fst s) (s, [], ?m0))"
    unfolding k by (rule update_loop_lists [OF n])
  then show ?thesis
    using assms(2)
    by (auto simp: update_schema_def Let_def split: prod.splits if_splits)
qed

lemma update_schema_state_idem:
  assumes "distinct (map fst s)"
  shows "snd (update_schema atts dfs alw (snd (update_schema atts dfs alw s)))
         = snd (update_schema atts dfs alw s)"
proof -
  let ?I = "\<lambda>kb. (fst kb, infer_entry atts dfs (snd kb))"
  let ?t = "map ?I s"
  let ?s1 = "snd (update_schema atts dfs alw s)"
  have dt: "distinct (map fst ?t)" using assms by (simp add: comp_def)
  have fix_t: "\<forall>kb \<in> set ?t. infer_entry atts dfs (snd kb) = snd kb"
    by (auto simp: infer_entry_idem)
  have tt: "map ?I ?t = ?t" using map_infer_fixed [OF fix_t] .
  from update_schema_cases [OF assms, of atts dfs alw]
  consider (err) "?s1 = ?t" "fst (update_schema atts dfs alw s) \<noteq> None"
    | (same) "?s1 = ?t" "filter (\<lambda>k. k \<in> set (sig_args atts)) (map fst s) = sig_args atts"
    | (reord) "?s1 = reorder (sig_args atts) alw ?t"
    by blast
  then show ?thesis
  proof cases
    case err
    have "fst (update_schema atts dfs alw ?t) \<noteq> None"
      using update_schema_error_again [OF assms err(2)] .
    then have "snd (update_schema atts dfs alw ?t) = map ?I ?t"
      using update_schema_cases [OF dt, of atts dfs alw] by auto
    then show ?thesis using err(1) tt by simp
  next
    case same
    have "filter (\<lambda>k. k \<in> set (sig_args atts)) (map fst ?t) = sig_args atts"
      using same(2) by (simp add: comp_def)
    then have "snd (update_schema atts dfs alw ?t) = map ?I ?t"
      using update_schema_cases [OF dt, of atts dfs alw] by auto
    then show ?thesis using same(1) tt by simp
  next
    case reord
    let ?r = "reorder (sig_args atts) alw ?t"
    have dr: "distinct (map fst ?r)" by (rule distinct_reorder)
    have "\<forall>kb \<in> set ?r. infer_entry atts dfs (snd kb) = snd kb"
      using reorder_entries [of _ "sig_args atts" alw ?t] fix_t by blast
    then have rr: "map ?I ?r = ?r" by (rule map_infer_fixed)
    from update_schema_cases [OF dr, of atts dfs alw]
    have "snd (update_schema atts dfs alw ?r) = ?r"
      unfolding rr by (auto simp: reorder_idem)
    then show ?thesis using reord by simp
  qed
qed

text \<open>
  Claim C8. Running \<open>update_schema\<close> a second time against the same signature leaves
  every entry of the schema with the required flag and the default it had after the first
  run (the schema as a whole is left as the first run left it).
\<close>

theorem update_schema_idempotent:
  assumes "distinct (map fst schema)"
  shows "map (\<lambda>kb. (fst kb, arg_required (snd kb), arg_default (snd kb)))
             (snd (update_schema atts dfs alw (snd (update_schema atts dfs alw schema))))
         = map (\<lambda>kb. (fst kb, arg_required (snd kb), arg_default (snd kb)))
             (snd (update_schema atts dfs alw schema))"
  by (simp add: update_schema_state_idem [OF assms])


theorem update_schema_idempotent_witness:
  "distinct (map fst [(''size'', plain_leaf ''size'' False), (''name'', plain_leaf ''name'' False)])
   \<and> map (\<lambda>kb. (fst kb, arg_required (snd kb), arg_default (snd kb)))
         (snd (update_schema [''self'', ''name'', ''size''] [VInt 10] []
            (snd (update_schema [''self'', ''name'', ''size''] [VInt 10] []
               [(''size'', plain_leaf ''size'' False), (''name'', plain_leaf ''name'' False)]))))
     = map (\<lambda>kb. (fst kb, arg_required (snd kb), arg_default (snd kb)))
         (snd (update_schema [''self'', ''name'', ''size''] [VInt 10] []
               [(''size'', plain_leaf ''size'' False), (''name'', plain_leaf ''name'' False)]))
   \<and> map (\<lambda>kb. (fst kb, arg_required (snd kb), arg_default (snd kb)))
         (snd (update_schema [''self'', ''name'', ''size''] [VInt 10] []
               [(''size'', plain_leaf ''size'' False), (''name'', plain_leaf ''name'' False)]))
     = [(''name'', True, VNone), (''size'', False, VInt 10)]"
proof -
  let ?s = "[(''size'', plain_leaf ''size'' False), (''name'', plain_leaf ''name'' False)]"
  have d: "distinct (map fst ?s)" by simp
  have v: "map (\<lambda>kb. (fst kb, arg_required (snd kb), arg_default (snd kb)))
         (snd (update_schema [''self'', ''name'', ''size''] [VInt 10] [] ?s))
     = [(''name'', True, VNone), (''size'', False, VInt 10)]"
    by code_simp
  show ?thesis
    using update_schema_idempotent [OF d, of "[''self'', ''name'', ''size'']" "[VInt 10]" "[]"] d v
    by simp
qed

section \<open>Properties of the constructor wrapper\<close>

lemma pop_allowed_kwargs:
  "snd (pop_allowed ks (self, kwargs)) = filter (\<lambda>kv. fst kv \<notin> set ks) kwargs"
proof (induction ks arbitrary: self kwargs)
  case Nil
  then show ?case by simp
next
  case (Cons k ks)
  show ?case
  proof (cases "od_get k kwargs")
    case None
    then have "\<forall>kv \<in> set kwargs. fst kv \<noteq> k" by (rule od_get_None_keys)
    then have "filter (\<lambda>kv. fst kv \<notin> set (k # ks)) kwargs = filter (\<lambda>kv. fst kv \<notin> set ks) kwargs"
      by (intro filter_cong) auto
    then show ?thesis using None Cons by simp
  next
    case (Some v)
    have "filter (\<lambda>kv. fst kv \<notin> set ks) (od_del k kwargs) = filter (\<lambda>kv. fst kv \<notin> set (k # ks)) kwargs"
      by (simp add: od_del_def conj_commute)
    then show ?thesis using Some Cons by simp
  qed
qed

lemma bind_positional_keys:
  "bind_positional schema kvs (posargs, self) = Inr (posargs', self') \<Longrightarrow>
   set (map fst posargs') = set (map fst posargs) \<union> set (map fst kvs)
   \<and> (distinct (map fst posargs) \<longrightarrow> distinct (map fst posargs'))"
proof (induction kvs arbitrary: posargs self)
  case Nil
  then show ?case by simp
next
  case (Cons kv kvs)
  obtain attr val where kv: "kv = (attr, val)" by (cases kv)
  from Cons.prems kv have
    "bind_positional schema kvs (od_set attr val posargs, od_set attr val self) = Inr (posargs', self')"
    by (auto split: option.splits)
  from Cons.IH [OF this] show ?case
    using kv od_set_keys [of attr val posargs] od_set_keys_distinct [of posargs attr val] by auto
qed

lemma bind_args_shape:
  assumes "bind_args w self0 args kwargs0 = Inr (self, posargs, kwargs)"
  shows "kwargs = filter (\<lambda>kv. fst kv \<notin> set (allowed w)) kwargs0
       \<and> set (map fst posargs) = set (take (length args) (tl (attrs w)))
       \<and> distinct (map fst posargs)"
proof -
  let ?self2 = "if attach_cosmo w
                then od_set ''cosmo'' (nbkit_cosmo w)
                       (if attach_comm w then od_set ''comm'' (nbkit_comm w) self0 else self0)
                else (if attach_comm w then od_set ''comm'' (nbkit_comm w) self0 else self0)"
  obtain self3 kw where p: "pop_allowed (allowed w) (?self2, kwargs0) = (self3, kw)"
    by (cases "pop_allowed (allowed w) (?self2, kwargs0)") auto
  have kw: "kw = filter (\<lambda>kv. fst kv \<notin> set (allowed w)) kwargs0"
    using pop_allowed_kwargs [of "allowed w" ?self2 kwargs0] p by simp
  let ?self4 = "set_all (zip (rev (attrs w)) (rev (defaults w))) self3"
  from assms p obtain self5 where
    b: "bind_positional (schema_of w) (zip (tl (attrs w)) args) ([], ?self4) = Inr (posargs, self5)"
    and k: "kwargs = kw"
    by (auto simp: bind_args_def Let_def split: sum.splits prod.splits)
  have "set (map fst posargs) = set (map fst (zip (tl (attrs w)) args))"
    using bind_positional_keys [OF b] by simp
  also have "\<dots> = set (take (length args) (tl (attrs w)))"
    by (simp add: map_fst_zip_take min_def)
  finally show ?thesis using k kw bind_positional_keys [OF b] by simp
qed

lemma init_duplicated_set:
  "set (init_duplicated posargs kwargs) = set (map fst posargs) \<inter> set (map fst kwargs)"
  by (auto simp: init_duplicated_def od_mem_def)

lemma init_missing_set:
  "set (init_missing schema posargs kwargs)
     = {k. (\<exists>a. od_get k schema = Some a \<and> arg_required a)
           \<and> k \<notin> set (map fst posargs) \<and> k \<notin> set (map fst kwargs)}"
proof -
  have "k \<in> set (map fst schema)" if "od_get k schema = Some a" for a k
    using that od_mem_get [of k schema] by (simp add: od_mem_def)
  then show ?thesis
    by (auto simp: init_missing_def od_mem_def split: option.splits)
qed

lemma init_extra_set:
  "set (init_extra schema posargs kwargs)
     = {k. (k \<in> set (map fst posargs) \<or> k \<in> set (map fst kwargs)) \<and> od_get k schema = None}"
  by (auto simp: init_extra_def od_mem_def od_get_def map_of_eq_None_iff)

lemma init_extra_distinct:
  "distinct (map fst posargs) \<Longrightarrow> distinct (map fst kwargs) \<Longrightarrow>
   distinct (init_extra schema posargs kwargs)"
  by (auto simp: init_extra_def od_mem_def)

text \<open>
  Claim C5. When the wrapper reaches the call of \<open>init\<close> and \<open>init\<close> raises an exception
  object, the wrapper raises that same object again: the same identity and the same class,
  with its argument replaced by the message built around the text of the exception. The
  message holds, in this order, the line of the duplicated arguments, the line of the
  missing arguments and the line of the extra arguments, a line being left out when its
  list is empty. The duplicated list holds, once each, the names bound both positionally
  and by keyword; the missing list the required names of the schema bound neither way; the
  extra list, once each, the bound names that the schema lacks. The positional names are
  the first parameters after \<open>self\<close>, one per positional argument; the keywords are those
  left once the allowed ambient names were taken out.
\<close>

theorem wrapper_reraises_enriched:
  assumes "bind_args w self0 args kwargs0 = Inr (self, posargs, kwargs)"
    and "init w self args kwargs = Inl ob"
    and "distinct (map fst kwargs0)"
  shows "\<exists>dup mis ext.
           wrapper w self0 args kwargs0
             = Inl (Reraised (ExcObject (obj_id ob)
                     (Exn (exc_type (obj_exn ob))
                        (init_error_msg (cls_name w) (obj_exn ob)
                           (errmsg_line ''duplicated arguments'' dup
                            @ errmsg_line ''missing arguments'' mis
                            @ errmsg_line ''extra arguments'' ext)))))
         \<and> set dup = set (map fst posargs) \<inter> set (map fst kwargs) \<and> distinct dup
         \<and> set mis = {k. (\<exists>a. od_get k (schema_of w) = Some a \<and> arg_required a)
                          \<and> k \<notin> set (map fst posargs) \<and> k \<notin> set (map fst kwargs)}
         \<and> set ext = {k. (k \<in> set (map fst posargs) \<or> k \<in> set (map fst kwargs))
                          \<and> od_get k (schema_of w) = None}
         \<and> distinct ext
         \<and> set (map fst posargs) = set (take (length args) (tl (attrs w)))
         \<and> kwargs = filter (\<lambda>kv. fst kv \<notin> set (allowed w)) kwargs0"
proof -
  note sh = bind_args_shape [OF assms(1)]
  have dk: "distinct (map fst kwargs)"
    using sh assms(3) by (simp add: distinct_map_filter)
  have dp: "distinct (map fst posargs)" using sh by simp
  have res: "wrapper w self0 args kwargs0
             = Inl (Reraised (ExcObject (obj_id ob)
                     (Exn (exc_type (obj_exn ob))
                        (init_error_msg (cls_name w) (obj_exn ob)
                           (errmsg_line ''duplicated arguments'' (init_duplicated posargs kwargs)
                            @ errmsg_line ''missing arguments'' (init_missing (schema_of w) posargs kwargs)
                            @ errmsg_line ''extra arguments'' (init_extra (schema_of w) posargs kwargs))))))"
    using assms(1,2) by (simp add: wrapper_def get_init_errmsg_def)
  have dd: "distinct (init_duplicated posargs kwargs)"
    using dp by (simp add: init_duplicated_def)
  show ?thesis
    using res init_duplicated_set [of posargs kwargs] dd
      init_missing_set [of "schema_of w" posargs kwargs]
      init_extra_set [of "schema_of w" posargs kwargs]
      init_extra_distinct [OF dp dk, of "schema_of w"] sh
    by blast
qed


lemma box_bind:
  "bind_args box_wrapped [] [VStr ''box''] [(''name'', VStr ''dup'')]
     = Inr ([(''comm'', VNone), (''size'', VInt 10), (''name'', VStr ''dup'')],
            [(''name'', VStr ''box'')], [(''name'', VStr ''dup'')])"
  by (simp add: bind_args_def box_wrapped_def od_get_def set_all_def check_choices_def
                plain_leaf_def)

lemma distinct_singleton: "distinct xs \<Longrightarrow> set xs = {x} \<Longrightarrow> xs = [x]"
proof (cases xs)
  case Nil
  assume "set xs = {x}"
  then show ?thesis using Nil by simp
next
  case (Cons y ys)
  assume d: "distinct xs" and s: "set xs = {x}"
  have "y = x" using s Cons by auto
  moreover have "ys = []"
  proof (cases ys)
    case Nil
    then show ?thesis .
  next
    case (Cons z zs)
    then have "z \<in> set xs" "z \<noteq> y" using d \<open>xs = y # ys\<close> by auto
    then show ?thesis using s \<open>y = x\<close> by auto
  qed
  ultimately show ?thesis using Cons by simp
qed

lemma box_message:
  "init_error_msg ''Box'' (Exn TypeError ''__init__() got multiple values for argument name'')
     (errmsg_line ''duplicated arguments'' [''name''] @ errmsg_line ''missing arguments'' []
      @ errmsg_line ''extra arguments'' [])
   = [CHR 0x0A] @ replicate 75 CHR ''-'' @ [CHR 0x0A]
     @ ''error initializing __init__ for '' @ [CHR 0x27] @ ''Box'' @ [CHR 0x27] @ '':''
     @ [CHR 0x0A]
     @ [CHR 0x09] @ ''original error message   : '' @ [CHR 0x27]
     @ ''__init__() got multiple values for argument name'' @ [CHR 0x27] @ [CHR 0x0A]
     @ [CHR 0x09] @ ''duplicated arguments     : ['' @ [CHR 0x27] @ ''name'' @ [CHR 0x27]
     @ '']'' @ [CHR 0x0A]
     @ [CHR 0x0A]
     @ replicate 75 CHR ''-'' @ [CHR 0x0A]"
  by code_simp

theorem wrapper_reraises_enriched_witness:
  "wrapper box_wrapped [] [VStr ''box''] [(''name'', VStr ''dup'')]
   = Inl (Reraised (ExcObject 1 (Exn TypeError
        ([CHR 0x0A] @ replicate 75 CHR ''-'' @ [CHR 0x0A]
         @ ''error initializing __init__ for '' @ [CHR 0x27] @ ''Box'' @ [CHR 0x27] @ '':''
         @ [CHR 0x0A]
         @ [CHR 0x09] @ ''original error message   : '' @ [CHR 0x27]
         @ ''__init__() got multiple values for argument name'' @ [CHR 0x27] @ [CHR 0x0A]
         @ [CHR 0x09] @ ''duplicated arguments     : ['' @ [CHR 0x27] @ ''name'' @ [CHR 0x27]
         @ '']'' @ [CHR 0x0A]
         @ [CHR 0x0A]
         @ replicate 75 CHR ''-'' @ [CHR 0x0A]))))"
proof -
  have i: "init box_wrapped [(''comm'', VNone), (''size'', VInt 10), (''name'', VStr ''dup'')]
             [VStr ''box''] [(''name'', VStr ''dup'')]
           = Inl (ExcObject 1 (Exn TypeError ''__init__() got multiple values for argument name''))"
    by (simp add: box_wrapped_def od_mem_def)
  have d: "distinct (map fst [(''name'', VStr ''dup'')])" by simp
  from wrapper_reraises_enriched [OF box_bind i d] obtain dup mis ext where
    w: "wrapper box_wrapped [] [VStr ''box''] [(''name'', VStr ''dup'')]
        = Inl (Reraised (ExcObject 1 (Exn TypeError
             (init_error_msg (cls_name box_wrapped)
                (Exn TypeError ''__init__() got multiple values for argument name'')
                (errmsg_line ''duplicated arguments'' dup @ errmsg_line ''missing arguments'' mis
                 @ errmsg_line ''extra arguments'' ext)))))"
    and dup: "set dup = set (map fst [(''name'', VStr ''box'')]) \<inter> set (map fst [(''name'', VStr ''dup'')])"
             "distinct dup"
    and mis: "set mis = {k. (\<exists>a. od_get k (schema_of box_wrapped) = Some a \<and> arg_required a)
                          \<and> k \<notin> set (map fst [(''name'', VStr ''box'')])
                          \<and> k \<notin> set (map fst [(''name'', VStr ''dup'')])}"
    and ext: "set ext = {k. (k \<in> set (map fst [(''name'', VStr ''box'')])
                             \<or> k \<in> set (map fst [(''name'', VStr ''dup'')]))
                          \<and> od_get k (schema_of box_wrapped) = None}"
    by auto
  have 1: "dup = [''name'']" using dup by (intro distinct_singleton) simp_all
  have "set mis = {}"
    unfolding mis by (auto simp: box_wrapped_def od_get_def plain_leaf_def split: if_splits)
  then have 2: "mis = []" by simp
  have "set ext = {}"
    unfolding ext by (auto simp: box_wrapped_def od_get_def split: if_splits)
  then have 3: "ext = []" by simp
  have c: "cls_name box_wrapped = ''Box''" by (simp add: box_wrapped_def)
  show ?thesis
    unfolding w 1 2 3 c box_message by (rule refl)
qed

end
